theory Spec2Isabelle
  imports Main "HOL-Library.Word"
begin

unbundle bit_operations_syntax

section \<open>Data model (models.py)\<close>

datatype TickType = TRADE | QUOTE | BBO

datatype Vendor = DATABENTO | BLOOMBERG | CME | ICE | REFINITIV

text \<open>
  The frozen dataclass \<open>Tick\<close>. Python integers are unbounded, so every integer field is
  an \<open>int\<close>; every \<open>Optional\<close> field is an \<open>option\<close>.
\<close>

record Tick =
  timestamp_ns :: int
  symbol :: string
  tick_type :: TickType
  bid_price :: "int option"
  ask_price :: "int option"
  trade_price :: "int option"
  bid_size :: "int option"
  ask_size :: "int option"
  trade_size :: "int option"
  exchange :: "string option"
  vendor :: "Vendor option"
  sequence_num :: "int option"
  price_precision :: int

section \<open>RingBuffer (tick\_buffer.py)\<close>

text \<open>\<open>int.bit_length()\<close>: the number of bits of the absolute value.\<close>

fun bit_length_nat :: "nat \<Rightarrow> nat" where
  "bit_length_nat n = (if n = 0 then 0 else Suc (bit_length_nat (n div 2)))"

definition bit_length :: "int \<Rightarrow> nat" where
  "bit_length x = bit_length_nat (nat \<bar>x\<bar>)"

record RingBuffer =
  rb_capacity :: int
  rb_mask :: int
  rb_buffer :: "Tick option list"
  write_idx :: int
  read_idx :: int

text \<open>\<open>RingBuffer.__init__\<close>: \<open>1 << (capacity - 1).bit_length()\<close> slots, all \<open>None\<close>.\<close>

definition RingBuffer_init :: "int \<Rightarrow> RingBuffer" where
  "RingBuffer_init cap =
     (let c = push_bit (bit_length (cap - 1)) (1::int)
      in \<lparr>rb_capacity = c, rb_mask = c - 1, rb_buffer = replicate (nat c) None,
          write_idx = 0, read_idx = 0\<rparr>)"

definition rb_size :: "RingBuffer \<Rightarrow> int" where
  "rb_size r = (write_idx r - read_idx r) AND rb_mask r"

definition is_full :: "RingBuffer \<Rightarrow> bool" where
  "is_full r = (rb_size r = rb_capacity r - 1)"

definition is_empty :: "RingBuffer \<Rightarrow> bool" where
  "is_empty r = (write_idx r = read_idx r)"

text \<open>
  The position a Python list index denotes: an index below zero is taken from the end
  of the list, and \<open>None\<close> stands for the \<open>IndexError\<close> of an index that is out of range.
\<close>

definition py_index :: "'a list \<Rightarrow> int \<Rightarrow> nat option" where
  "py_index xs i =
     (if 0 \<le> i \<and> i < int (length xs) then Some (nat i)
      else if - int (length xs) \<le> i \<and> i < 0 then Some (nat (int (length xs) + i))
      else None)"

text \<open>
  \<open>RingBuffer.push\<close>. The result is \<open>None\<close> when the list store raises, otherwise the
  returned flag and the buffer after the call.
\<close>

definition rb_push :: "Tick \<Rightarrow> RingBuffer \<Rightarrow> (bool \<times> RingBuffer) option" where
  "rb_push t r =
     (let next_write = (write_idx r + 1) AND rb_mask r
      in if next_write = read_idx r then Some (False, r)
         else (case py_index (rb_buffer r) (write_idx r) of
                 None \<Rightarrow> None
               | Some j \<Rightarrow>
                   Some (True, r\<lparr>rb_buffer := (rb_buffer r)[j := Some t],
                                 write_idx := next_write\<rparr>)))"

text \<open>\<open>RingBuffer.pop\<close>: the popped value (\<open>None\<close> when empty) and the buffer after the call.\<close>

definition rb_pop :: "RingBuffer \<Rightarrow> (Tick option \<times> RingBuffer) option" where
  "rb_pop r =
     (if read_idx r = write_idx r then Some (None, r)
      else (case py_index (rb_buffer r) (read_idx r) of
              None \<Rightarrow> None
            | Some j \<Rightarrow>
                Some (rb_buffer r ! j,
                      r\<lparr>rb_buffer := (rb_buffer r)[j := None],
                        read_idx := (read_idx r + 1) AND rb_mask r\<rparr>)))"

text \<open>
  The loop of \<open>pop_batch\<close>: \<open>count\<close> calls of \<open>pop\<close>, keeping the results that are not
  \<open>None\<close> (a \<open>Tick\<close> object is always truthy).
\<close>

fun pop_loop :: "nat \<Rightarrow> RingBuffer \<Rightarrow> (Tick list \<times> RingBuffer) option" where
  "pop_loop 0 r = Some ([], r)"
| "pop_loop (Suc n) r =
     (case rb_pop r of
        None \<Rightarrow> None
      | Some (x, r') \<Rightarrow>
          (case pop_loop n r' of
             None \<Rightarrow> None
           | Some (batch, r'') \<Rightarrow>
               Some ((case x of None \<Rightarrow> batch | Some t \<Rightarrow> t # batch), r'')))"

definition pop_batch :: "int \<Rightarrow> RingBuffer \<Rightarrow> (Tick list \<times> RingBuffer) option" where
  "pop_batch max_size r = pop_loop (nat (min max_size (rb_size r))) r"

text \<open>A run of pushes (all flags returned) and a run of pops (all values returned).\<close>

fun push_all :: "Tick list \<Rightarrow> RingBuffer \<Rightarrow> (bool list \<times> RingBuffer) option" where
  "push_all [] r = Some ([], r)"
| "push_all (t # ts) r =
     (case rb_push t r of
        None \<Rightarrow> None
      | Some (b, r') \<Rightarrow>
          (case push_all ts r' of
             None \<Rightarrow> None
           | Some (bs, r'') \<Rightarrow> Some (b # bs, r'')))"

fun pop_all :: "nat \<Rightarrow> RingBuffer \<Rightarrow> (Tick option list \<times> RingBuffer) option" where
  "pop_all 0 r = Some ([], r)"
| "pop_all (Suc n) r =
     (case rb_pop r of
        None \<Rightarrow> None
      | Some (x, r') \<Rightarrow>
          (case pop_all n r' of
             None \<Rightarrow> None
           | Some (xs, r'') \<Rightarrow> Some (x # xs, r'')))"

text \<open>The buffers a program can reach from \<open>RingBuffer(cap)\<close> by calls of push and pop.\<close>

inductive rb_reachable :: "int \<Rightarrow> RingBuffer \<Rightarrow> bool" for cap :: int where
  rb_init: "rb_reachable cap (RingBuffer_init cap)"
| rb_after_push: "rb_reachable cap r \<Longrightarrow> rb_push t r = Some (b, r') \<Longrightarrow> rb_reachable cap r'"
| rb_after_pop: "rb_reachable cap r \<Longrightarrow> rb_pop r = Some (x, r') \<Longrightarrow> rb_reachable cap r'"

text \<open>
  The representation invariant: a power-of-two capacity with its mask, both indices
  inside the buffer, and a tick in every slot from the read index up to the write index.
\<close>

definition rb_inv :: "RingBuffer \<Rightarrow> bool" where
  "rb_inv r \<longleftrightarrow>
     (\<exists>k. rb_capacity r = 2 ^ k) \<and> rb_mask r = rb_capacity r - 1 \<and>
     int (length (rb_buffer r)) = rb_capacity r \<and>
     0 \<le> write_idx r \<and> write_idx r < rb_capacity r \<and>
     0 \<le> read_idx r \<and> read_idx r < rb_capacity r \<and>
     (\<forall>i. 0 \<le> i \<and> i < rb_size r \<longrightarrow>
        rb_buffer r ! nat ((read_idx r + i) mod rb_capacity r) \<noteq> None)"

text \<open>The queued ticks, oldest first.\<close>

definition rb_contents :: "RingBuffer \<Rightarrow> Tick option list" where
  "rb_contents r =
     map (\<lambda>i. rb_buffer r ! nat ((read_idx r + int i) mod rb_capacity r))
       [0 ..< nat (rb_size r)]"

text \<open>A trade tick, for concrete runs.\<close>

definition trade_tick :: "int \<Rightarrow> string \<Rightarrow> int \<Rightarrow> int \<Rightarrow> Tick" where
  "trade_tick ts s p sz =
     \<lparr>timestamp_ns = ts, symbol = s, tick_type = TRADE, bid_price = None,
      ask_price = None, trade_price = Some p, bid_size = None, ask_size = None,
      trade_size = Some sz, exchange = None, vendor = None, sequence_num = None,
      price_precision = 2\<rparr>"

section \<open>TickBuffer (tick\_buffer.py)\<close>

record BufferStats =
  ticks_received :: int
  ticks_processed :: int
  ticks_dropped :: int
  batches_flushed :: int
  max_latency_ns :: int
  avg_latency_ns :: int

record TickBuffer =
  batch_size :: int
  flush_interval_ns :: int
  tb_buffer :: RingBuffer
  stats :: BufferStats
  last_flush_time :: int
  tb_running :: bool


text \<open>
  An awaited call returns, raises an exception, or is cancelled while it is suspended.
  An operation that awaits either completes with its result or is left by the
  exception of the awaited call.
\<close>

datatype outcome = Returns | Raises | Cancelled

datatype 'a completion = Done 'a | Aborted

text \<open>
  \<open>TickBuffer._flush\<close> runs in two parts around \<open>await self._on_batch(batch)\<close>, and other
  tasks run while it is suspended there. \<open>flush_begin\<close> is the part before the await: the
  batch is popped and, when it is not empty, the latencies are updated and the batch is
  handed to the sink. The floating-point average \<open>int(0.9 * avg + 0.1 * latency)\<close> is the
  parameter \<open>ewma\<close>; \<open>now\<close> is the clock reading.
\<close>

definition flush_begin ::
    "(int \<Rightarrow> int \<Rightarrow> int) \<Rightarrow> int \<Rightarrow> TickBuffer \<Rightarrow> (Tick list \<times> TickBuffer) option" where
  "flush_begin ewma now tb =
     (case pop_batch (batch_size tb) (tb_buffer tb) of
        None \<Rightarrow> None
      | Some (batch, rb') \<Rightarrow>
          (case batch of
             [] \<Rightarrow> Some ([], tb\<lparr>tb_buffer := rb'\<rparr>)
           | oldest_tick # _ \<Rightarrow>
               (let latency = now - timestamp_ns oldest_tick;
                    st = stats tb
                in Some (batch,
                         tb\<lparr>tb_buffer := rb',
                            stats := st\<lparr>max_latency_ns := max (max_latency_ns st) latency,
                                          avg_latency_ns := ewma (avg_latency_ns st) latency\<rparr>\<rparr>))))"

text \<open>
  \<open>flush_end\<close> is the part after the await, run only when the sink returns, on the state
  the batcher has by then.
\<close>

definition flush_end :: "int \<Rightarrow> Tick list \<Rightarrow> TickBuffer \<Rightarrow> TickBuffer" where
  "flush_end now batch tb =
     tb\<lparr>stats := (stats tb)\<lparr>ticks_processed := ticks_processed (stats tb) + int (length batch),
                              batches_flushed := batches_flushed (stats tb) + 1\<rparr>,
        last_flush_time := now\<rparr>"

text \<open>
  A flush that nothing interleaves with; \<open>sink\<close> is the outcome of the awaited call. The
  result is how the call ends, the batch handed to the sink, if any, and the state.
\<close>

definition tb_flush ::
    "(int \<Rightarrow> int \<Rightarrow> int) \<Rightarrow> int \<Rightarrow> outcome \<Rightarrow> TickBuffer
      \<Rightarrow> (unit completion \<times> Tick list option \<times> TickBuffer) option" where
  "tb_flush ewma now sink tb =
     (case flush_begin ewma now tb of
        None \<Rightarrow> None
      | Some (batch, tb1) \<Rightarrow>
          if batch = [] then Some (Done (), None, tb1)
          else if sink = Returns then Some (Done (), Some batch, flush_end now batch tb1)
          else Some (Aborted, Some batch, tb1))"




definition tb_stop_flag :: "TickBuffer \<Rightarrow> TickBuffer" where
  "tb_stop_flag tb = tb\<lparr>tb_running := False\<rparr>"

definition tb_stop ::
    "(int \<Rightarrow> int \<Rightarrow> int) \<Rightarrow> int \<Rightarrow> outcome \<Rightarrow> TickBuffer
      \<Rightarrow> (unit completion \<times> Tick list option \<times> TickBuffer) option" where
  "tb_stop ewma now sink tb = tb_flush ewma now sink (tb_stop_flag tb)"

text \<open>
  The ticks an operation loses: the batch it handed to a sink that did not return. They
  are no longer in the ring buffer and are never counted as processed or dropped.
\<close>

definition lost_ticks :: "'a completion \<Rightarrow> Tick list option \<Rightarrow> int" where
  "lost_ticks c handed =
     (case c of
        Done x \<Rightarrow> 0
      | Aborted \<Rightarrow> (case handed of None \<Rightarrow> 0 | Some batch \<Rightarrow> int (length batch)))"

text \<open>The ticks held by the sinks of the flushes that are suspended.\<close>

definition in_sink :: "(int \<times> Tick list) list \<Rightarrow> int" where
  "in_sink suspended = sum_list (map (\<lambda>f. int (length (snd f))) suspended)"



text \<open>
  An integer stand-in for the floating-point average, for concrete runs: nine tenths of
  the average plus one tenth of the latency, truncated toward zero as \<open>int()\<close> does.
\<close>

definition ewma_int :: "int \<Rightarrow> int \<Rightarrow> int" where
  "ewma_int avg latency =
     (let x = 9 * avg + latency in if 0 \<le> x then x div 10 else - ((- x) div 10))"

text \<open>
  A batcher that holds one tick, and the same batcher after a flush whose sink raised,
  for concrete runs.
\<close>

definition tb_example_held :: TickBuffer where
  "tb_example_held =
     \<lparr>batch_size = 2, flush_interval_ns = 100000000,
      tb_buffer = \<lparr>rb_capacity = 4, rb_mask = 3,
                   rb_buffer = [Some (trade_tick 1 ''ES'' 453225 1), None, None, None],
                   write_idx = 1, read_idx = 0\<rparr>,
      stats = \<lparr>ticks_received = 1, ticks_processed = 0, ticks_dropped = 0,
                batches_flushed = 0, max_latency_ns = 0, avg_latency_ns = 0\<rparr>,
      last_flush_time = 0, tb_running = False\<rparr>"

definition tb_example_lost :: TickBuffer where
  "tb_example_lost =
     \<lparr>batch_size = 2, flush_interval_ns = 100000000,
      tb_buffer = \<lparr>rb_capacity = 4, rb_mask = 3,
                   rb_buffer = [None, None, None, None],
                   write_idx = 1, read_idx = 1\<rparr>,
      stats = \<lparr>ticks_received = 1, ticks_processed = 0, ticks_dropped = 0,
                batches_flushed = 0, max_latency_ns = 8, avg_latency_ns = 0\<rparr>,
      last_flush_time = 0, tb_running = False\<rparr>"

text \<open>The batcher that held one tick, after a flush whose sink returned.\<close>

definition tb_example_flushed :: TickBuffer where
  "tb_example_flushed =
     \<lparr>batch_size = 2, flush_interval_ns = 100000000,
      tb_buffer = \<lparr>rb_capacity = 4, rb_mask = 3,
                   rb_buffer = [None, None, None, None],
                   write_idx = 1, read_idx = 1\<rparr>,
      stats = \<lparr>ticks_received = 1, ticks_processed = 1, ticks_dropped = 0,
                batches_flushed = 1, max_latency_ns = 8, avg_latency_ns = 0\<rparr>,
      last_flush_time = 9, tb_running = False\<rparr>"


section \<open>TickAggregator (tick\_buffer.py)\<close>

datatype py_error =
  ZeroDivisionError | TypeError | AttributeError | ValueError | OverflowError

record Bar =
  bar_timestamp_ns :: int
  bar_symbol :: string
  bar_open :: int
  bar_high :: int
  bar_low :: int
  bar_close :: int
  bar_volume :: int
  bar_tick_count :: int
  bar_precision :: int

text \<open>
  The aggregator: the timeframe, whether an \<open>on_bar\<close> callback was given, and the current
  bar of every symbol.
\<close>

record TickAggregator =
  timeframe_ns :: int
  on_bar_set :: bool
  bars :: "string \<rightharpoonup> Bar"

definition TickAggregator_init :: "int \<Rightarrow> bool \<Rightarrow> TickAggregator" where
  "TickAggregator_init timeframe_seconds has_on_bar =
     \<lparr>timeframe_ns = timeframe_seconds * 1000000000, on_bar_set = has_on_bar,
      bars = Map.empty\<rparr>"

text \<open>
  \<open>_get_bar_timestamp\<close>: Python's \<open>//\<close> is floor division, as \<open>div\<close> on \<open>int\<close> is, and
  raises on a zero divisor.
\<close>

definition get_bar_timestamp :: "TickAggregator \<Rightarrow> int \<Rightarrow> py_error + int" where
  "get_bar_timestamp ag tick_time_ns =
     (if timeframe_ns ag = 0 then Inl ZeroDivisionError
      else Inr ((tick_time_ns div timeframe_ns ag) * timeframe_ns ag))"

text \<open>
  Python's \<open>x or y\<close> on optional integers: \<open>x\<close> when \<open>x\<close> is truthy, that is neither
  \<open>None\<close> nor \<open>0\<close>, and \<open>y\<close> otherwise.
\<close>

definition py_truthy :: "int option \<Rightarrow> bool" where
  "py_truthy x = (case x of None \<Rightarrow> False | Some v \<Rightarrow> v \<noteq> 0)"

definition py_or :: "int option \<Rightarrow> int option \<Rightarrow> int option" where
  "py_or x y = (if py_truthy x then x else y)"

text \<open>\<open>tick.trade_price or tick.bid_price or tick.ask_price\<close> and \<open>tick.trade_size or 0\<close>.\<close>

definition tick_price :: "Tick \<Rightarrow> int option" where
  "tick_price t = py_or (py_or (trade_price t) (bid_price t)) (ask_price t)"

definition tick_volume :: "Tick \<Rightarrow> int" where
  "tick_volume t = (case py_or (trade_size t) (Some 0) of None \<Rightarrow> 0 | Some v \<Rightarrow> v)"

text \<open>
  The selection in the words of the specification, \<open>trade_price ?? bid_price ?? ask_price\<close>
  and \<open>trade_size ?? 0\<close>: the first field that is set, whatever its value.
\<close>

definition spec_price :: "Tick \<Rightarrow> int option" where
  "spec_price t =
     (case trade_price t of
        Some p \<Rightarrow> Some p
      | None \<Rightarrow> (case bid_price t of Some p \<Rightarrow> Some p | None \<Rightarrow> ask_price t))"

definition spec_volume :: "Tick \<Rightarrow> int" where
  "spec_volume t = (case trade_size t of None \<Rightarrow> 0 | Some v \<Rightarrow> v)"

definition new_bar :: "int \<Rightarrow> Tick \<Rightarrow> int \<Rightarrow> int \<Rightarrow> Bar" where
  "new_bar bar_ts t price sz =
     \<lparr>bar_timestamp_ns = bar_ts, bar_symbol = symbol t, bar_open = price, bar_high = price,
      bar_low = price, bar_close = price, bar_volume = sz, bar_tick_count = 1,
      bar_precision = price_precision t\<rparr>"

definition update_bar :: "Bar \<Rightarrow> int \<Rightarrow> int \<Rightarrow> Bar" where
  "update_bar current_bar price sz =
     current_bar\<lparr>bar_high := max (bar_high current_bar) price,
                 bar_low := min (bar_low current_bar) price,
                 bar_close := price,
                 bar_volume := bar_volume current_bar + sz,
                 bar_tick_count := bar_tick_count current_bar + 1\<rparr>"

text \<open>
  \<open>TickAggregator.process_tick\<close>: the returned bar, the bars passed to \<open>on_bar\<close> (taken to
  return), and the aggregator after the call; \<open>Inl\<close> when the call raises.
\<close>

definition process_tick ::
    "Tick \<Rightarrow> TickAggregator \<Rightarrow> py_error + (Bar option \<times> Bar list \<times> TickAggregator)" where
  "process_tick t ag =
     (case get_bar_timestamp ag (timestamp_ns t) of
        Inl e \<Rightarrow> Inl e
      | Inr bar_ts \<Rightarrow>
          (case tick_price t of
             None \<Rightarrow> Inr (None, [], ag)
           | Some price \<Rightarrow>
               (let sz = tick_volume t in
                case bars ag (symbol t) of
                  Some current_bar \<Rightarrow>
                    if bar_ts > bar_timestamp_ns current_bar then
                      Inr (Some current_bar,
                           (if on_bar_set ag then [current_bar] else []),
                           ag\<lparr>bars := (bars ag)(symbol t \<mapsto> new_bar bar_ts t price sz)\<rparr>)
                    else
                      Inr (None, [],
                           ag\<lparr>bars := (bars ag)(symbol t \<mapsto> update_bar current_bar price sz)\<rparr>)
                | None \<Rightarrow>
                    Inr (None, [],
                         ag\<lparr>bars := (bars ag)(symbol t \<mapsto> new_bar bar_ts t price sz)\<rparr>))))"

text \<open>A tick with the three prices and the trade size given, for concrete runs.\<close>

definition priced_tick ::
    "int \<Rightarrow> string \<Rightarrow> int option \<Rightarrow> int option \<Rightarrow> int option \<Rightarrow> int option \<Rightarrow> Tick" where
  "priced_tick ts s tp bp ap sz =
     \<lparr>timestamp_ns = ts, symbol = s, tick_type = QUOTE, bid_price = bp,
      ask_price = ap, trade_price = tp, bid_size = None, ask_size = None,
      trade_size = sz, exchange = None, vendor = None, sequence_num = None,
      price_precision = 2\<rparr>"

text \<open>An aggregator holding the one-minute bar of the second minute, for concrete runs.\<close>

definition late_example_bar :: Bar where
  "late_example_bar =
     \<lparr>bar_timestamp_ns = 60000000000, bar_symbol = ''ES'', bar_open = 100, bar_high = 100,
      bar_low = 100, bar_close = 100, bar_volume = 1, bar_tick_count = 1, bar_precision = 2\<rparr>"

definition late_example_ag :: TickAggregator where
  "late_example_ag =
     \<lparr>timeframe_ns = 60000000000, on_bar_set = True, bars = [''ES'' \<mapsto> late_example_bar]\<rparr>"

section \<open>FeedHandler (models.py, base\_handler.py)\<close>

record FeedStats =
  fs_vendor :: Vendor
  fs_symbol :: string
  fs_ticks_received :: int
  last_tick_time_ns :: int
  gaps_detected :: int
  last_sequence :: int
  latency_ns_avg :: int

definition FeedStats_init :: "Vendor \<Rightarrow> string \<Rightarrow> FeedStats" where
  "FeedStats_init v s =
     \<lparr>fs_vendor = v, fs_symbol = s, fs_ticks_received = 0, last_tick_time_ns = 0,
      gaps_detected = 0, last_sequence = 0, latency_ns_avg = 0\<rparr>"

text \<open>
  The fields of the abstract base class. The reconnect delays are the floats \<open>1.0\<close> and
  \<open>60.0\<close>; doubling and the minimum with \<open>60.0\<close> only produce 1, 2, 4, 8, 16, 32 and 60,
  which floats represent exactly, so the delays are integers (seconds) here.
\<close>

record FeedHandler =
  fh_vendor :: Vendor
  on_error_set :: bool
  running :: bool
  connected :: bool
  fh_stats :: "string \<rightharpoonup> FeedStats"
  reconnect_delay :: int
  max_reconnect_delay :: int
  subscriptions :: "string list"

definition FeedHandler_init :: "Vendor \<Rightarrow> bool \<Rightarrow> FeedHandler" where
  "FeedHandler_init v has_on_error =
     \<lparr>fh_vendor = v, on_error_set = has_on_error, running = False, connected = False,
      fh_stats = Map.empty, reconnect_delay = 1, max_reconnect_delay = 60,
      subscriptions = []\<rparr>"

subsection \<open>The supervisor loop \<open>FeedHandler.start\<close>\<close>

text \<open>
  The loop runs against an environment: every awaited call has an \<open>outcome\<close> (it
  returns, raises an exception or is cancelled), and \<open>stop()\<close> may be called by another
  task while the call is suspended (the flag of an \<open>await\<close>). One \<open>iteration\<close> scripts the awaited calls of one
  pass through the body of \<open>while self._running\<close>; entries the pass does not reach are
  not read.
\<close>

type_synonym await = "outcome \<times> bool"

record iteration =
  connect_result :: await
  subscribe_result :: await
  stream :: "(Tick \<times> bool \<times> await) list"
  stream_end :: await
  on_error_result :: await
  sleep_result :: await

text \<open>What the loop does to the outside, in order.\<close>

datatype action =
  Connect | Subscribe "string list" | OnTick Tick | OnError | Sleep int | Disconnect

datatype body_exit = Normal | Exn | Cancel

definition stop_if :: "bool \<Rightarrow> 'a FeedHandler_scheme \<Rightarrow> 'a FeedHandler_scheme" where
  "stop_if stopped h = (if stopped then h\<lparr>running := False\<rparr> else h)"

definition exit_of :: "outcome \<Rightarrow> body_exit" where
  "exit_of r = (case r of Returns \<Rightarrow> Normal | Raises \<Rightarrow> Exn | Cancelled \<Rightarrow> Cancel)"

text \<open>
  \<open>async for tick in self._read_messages()\<close>: each entry is a tick the stream yields
  (with the stop flag of the wait for it) and the result of \<open>await self._on_tick(tick)\<close>;
  \<open>fin\<close> is how the stream behaves once these are consumed: it ends, raises or is
  cancelled.
\<close>

fun read_loop ::
    "(Tick \<times> bool \<times> await) list \<Rightarrow> await \<Rightarrow> 'a FeedHandler_scheme
      \<Rightarrow> body_exit \<times> 'a FeedHandler_scheme \<times> action list" where
  "read_loop [] fin h = (exit_of (fst fin), stop_if (snd fin) h, [])"
| "read_loop ((tick, stopped, on_tick) # rest) fin h =
     (let h1 = stop_if stopped h in
      if \<not> running h1 then (Normal, h1, [])
      else
        (let h2 = stop_if (snd on_tick) h1 in
         case fst on_tick of
           Returns \<Rightarrow>
             (case read_loop rest fin h2 of (e, h3, acts) \<Rightarrow> (e, h3, OnTick tick # acts))
         | Raises \<Rightarrow> (Exn, h2, [OnTick tick])
         | Cancelled \<Rightarrow> (Cancel, h2, [OnTick tick])))"

text \<open>
  The \<open>try\<close> block. A call of \<open>subscribe\<close> with the handler's own list doubles the list:
  every handler of the repository begins \<open>subscribe\<close> with
  \<open>self._subscriptions.extend(symbols)\<close>, before its first awaited call.
\<close>

definition try_body ::
    "iteration \<Rightarrow> 'a FeedHandler_scheme \<Rightarrow> body_exit \<times> 'a FeedHandler_scheme \<times> action list" where
  "try_body it h =
     (let h1 = stop_if (snd (connect_result it)) h in
      case fst (connect_result it) of
        Raises \<Rightarrow> (Exn, h1, [Connect])
      | Cancelled \<Rightarrow> (Cancel, h1, [Connect])
      | Returns \<Rightarrow>
          (let h2 = h1\<lparr>connected := True, reconnect_delay := 1\<rparr> in
           if subscriptions h2 \<noteq> [] then
             (let subs = subscriptions h2;
                  h3 = stop_if (snd (subscribe_result it)) (h2\<lparr>subscriptions := subs @ subs\<rparr>)
              in case fst (subscribe_result it) of
                   Raises \<Rightarrow> (Exn, h3, [Connect, Subscribe subs])
                 | Cancelled \<Rightarrow> (Cancel, h3, [Connect, Subscribe subs])
                 | Returns \<Rightarrow>
                     (case read_loop (stream it) (stream_end it) h3 of
                        (e, h4, acts) \<Rightarrow> (e, h4, Connect # Subscribe subs # acts)))
           else
             (case read_loop (stream it) (stream_end it) h2 of
                (e, h4, acts) \<Rightarrow> (e, h4, Connect # acts))))"

text \<open>
  The \<open>except Exception\<close> block. An exception or a cancellation raised inside it (by
  \<open>on_error\<close> or by the sleep) leaves \<open>start\<close>; the flag of the result says so.
\<close>

definition except_block ::
    "iteration \<Rightarrow> 'a FeedHandler_scheme \<Rightarrow> bool \<times> 'a FeedHandler_scheme \<times> action list" where
  "except_block it h =
     (let h1 = h\<lparr>connected := False\<rparr>;
          h2 = (if on_error_set h1 then stop_if (snd (on_error_result it)) h1 else h1);
          acts = (if on_error_set h1 then [OnError] else [])
      in if on_error_set h1 \<and> fst (on_error_result it) \<noteq> Returns then (True, h2, acts)
         else if running h2 then
           (let h3 = stop_if (snd (sleep_result it)) h2 in
            if fst (sleep_result it) \<noteq> Returns
            then (True, h3, acts @ [Sleep (reconnect_delay h2)])
            else (False,
                  h3\<lparr>reconnect_delay := min (reconnect_delay h3 * 2) (max_reconnect_delay h3)\<rparr>,
                  acts @ [Sleep (reconnect_delay h2)]))
         else (False, h2, acts))"

text \<open>
  What decides the \<open>except Exception\<close> block, entered in state \<open>h\<close>: whether \<open>on_error\<close> is
  set and does not return; whether the handler is still running when the guard
  \<open>if self._running\<close> is read, that is after \<open>on_error\<close>; and whether the loop sleeps.
\<close>

definition on_error_fails :: "iteration \<Rightarrow> 'a FeedHandler_scheme \<Rightarrow> bool" where
  "on_error_fails it h \<longleftrightarrow> on_error_set h \<and> fst (on_error_result it) \<noteq> Returns"

definition running_at_guard :: "iteration \<Rightarrow> 'a FeedHandler_scheme \<Rightarrow> bool" where
  "running_at_guard it h \<longleftrightarrow> running h \<and> \<not> (on_error_set h \<and> snd (on_error_result it))"

definition sleeps :: "iteration \<Rightarrow> 'a FeedHandler_scheme \<Rightarrow> bool" where
  "sleeps it h \<longleftrightarrow> \<not> on_error_fails it h \<and> running_at_guard it h"

datatype loop_exit = Continue | Break | Escape

definition loop_body ::
    "iteration \<Rightarrow> 'a FeedHandler_scheme \<Rightarrow> loop_exit \<times> 'a FeedHandler_scheme \<times> action list" where
  "loop_body it h =
     (case try_body it h of
        (Normal, h', acts) \<Rightarrow> (Continue, h', acts)
      | (Cancel, h', acts) \<Rightarrow> (Break, h'\<lparr>running := False\<rparr>, acts)
      | (Exn, h', acts) \<Rightarrow>
          (case except_block it h' of
             (escaped, h'', acts') \<Rightarrow>
               (if escaped then Escape else Continue, h'', acts @ acts')))"

text \<open>
  The result of \<open>start\<close>: it returned, an exception left it, or the script ended while
  the loop was still running (the supervisor is waiting for its next \<open>connect\<close>).
\<close>

datatype start_result = Finished | Escaped | Pending

definition leave_loop ::
    "outcome \<Rightarrow> 'a FeedHandler_scheme \<Rightarrow> start_result \<times> 'a FeedHandler_scheme \<times> action list" where
  "leave_loop disconnect_result h =
     (if disconnect_result = Returns then (Finished, h\<lparr>connected := False\<rparr>, [Disconnect])
      else (Escaped, h, [Disconnect]))"

fun supervise ::
    "iteration list \<Rightarrow> outcome \<Rightarrow> 'a FeedHandler_scheme
      \<Rightarrow> start_result \<times> 'a FeedHandler_scheme \<times> action list" where
  "supervise [] disconnect_result h =
     (if running h then (Pending, h, []) else leave_loop disconnect_result h)"
| "supervise (it # rest) disconnect_result h =
     (if running h then
        (case loop_body it h of
           (Continue, h', acts) \<Rightarrow>
             (case supervise rest disconnect_result h' of
                (r, h'', acts') \<Rightarrow> (r, h'', acts @ acts'))
         | (Break, h', acts) \<Rightarrow>
             (case leave_loop disconnect_result h' of
                (r, h'', acts') \<Rightarrow> (r, h'', acts @ acts'))
         | (Escape, h', acts) \<Rightarrow> (Escaped, h', acts))
      else leave_loop disconnect_result h)"

definition start ::
    "iteration list \<Rightarrow> outcome \<Rightarrow> 'a FeedHandler_scheme
      \<Rightarrow> start_result \<times> 'a FeedHandler_scheme \<times> action list" where
  "start script disconnect_result h = supervise script disconnect_result (h\<lparr>running := True\<rparr>)"

text \<open>Scripts for concrete runs: a connect that raises, and a stream that ends at once.\<close>

definition failing_connect :: iteration where
  "failing_connect =
     \<lparr>connect_result = (Raises, False), subscribe_result = (Returns, False), stream = [],
      stream_end = (Returns, False), on_error_result = (Returns, False),
      sleep_result = (Returns, False)\<rparr>"

definition ending_stream :: iteration where
  "ending_stream =
     \<lparr>connect_result = (Returns, False), subscribe_result = (Returns, False), stream = [],
      stream_end = (Returns, False), on_error_result = (Returns, False),
      sleep_result = (Returns, False)\<rparr>"

definition failing_stream :: iteration where
  "failing_stream =
     \<lparr>connect_result = (Returns, False), subscribe_result = (Returns, False), stream = [],
      stream_end = (Raises, False), on_error_result = (Returns, False),
      sleep_result = (Returns, False)\<rparr>"

definition failing_connect_stopped :: iteration where
  "failing_connect_stopped = failing_connect\<lparr>connect_result := (Raises, True)\<rparr>"

definition failing_stream_stopped_in_on_error :: iteration where
  "failing_stream_stopped_in_on_error = failing_stream\<lparr>on_error_result := (Returns, True)\<rparr>"

section \<open>Vendor handlers (handlers/)\<close>

subsection \<open>Parsing vendor messages into ticks\<close>

text \<open>The tick invariant of the specification.\<close>

definition tick_invariant :: "Tick \<Rightarrow> bool" where
  "tick_invariant t \<longleftrightarrow>
     (bid_price t \<noteq> None \<or> ask_price t \<noteq> None \<or> trade_price t \<noteq> None) \<and>
     (tick_type t = BBO \<longrightarrow> bid_price t \<noteq> None \<and> ask_price t \<noteq> None)"

text \<open>
  A decoded Databento JSON message: a field is \<open>None\<close> when the key is missing. The
  values of the price keys have the type \<open>'n\<close> of JSON values; the floating-point
  expression \<open>int(v * multiplier)\<close> is the parameter \<open>scaled\<close>, which gives the exception
  where the expression raises (\<open>TypeError\<close> for a \<open>null\<close>, \<open>ValueError\<close> for a NaN,
  \<open>OverflowError\<close> for an infinity).
\<close>

record 'n dbn_message =
  msg_type :: "string option"
  msg_symbol :: "string option"
  ts_event :: "int option"
  bid_px :: "'n option"
  ask_px :: "'n option"
  trade_px :: "'n option"
  bid_sz :: "int option"
  ask_sz :: "int option"
  trade_sz :: "int option"
  msg_exchange :: "string option"
  msg_sequence :: "int option"

definition to_fixed ::
    "('n \<Rightarrow> int \<Rightarrow> py_error + int) \<Rightarrow> int \<Rightarrow> 'n \<Rightarrow> py_error + int option" where
  "to_fixed scaled multiplier v =
     (case scaled v multiplier of Inl e \<Rightarrow> Inl e | Inr i \<Rightarrow> Inr (Some i))"

text \<open>\<open>DatabentoHandler._parse_message\<close>: \<open>Inr None\<close> for a heartbeat, \<open>Inl\<close> when it raises.\<close>

definition dbn_parse_message ::
    "('n \<Rightarrow> int \<Rightarrow> py_error + int) \<Rightarrow> 'n dbn_message \<Rightarrow> int \<Rightarrow> py_error + Tick option" where
  "dbn_parse_message scaled msg receive_time =
     (if msg_type msg = Some ''heartbeat'' then Inr None
      else
        (let sym = (case msg_symbol msg of None \<Rightarrow> [] | Some s \<Rightarrow> s);
             timestamp = (case ts_event msg of None \<Rightarrow> receive_time | Some ts \<Rightarrow> ts);
             ttype = (if trade_px msg \<noteq> None then TRADE
                      else if bid_px msg \<noteq> None \<and> ask_px msg \<noteq> None then BBO
                      else QUOTE);
             precision = 2;
             multiplier = 10 ^ 2
         in case (case bid_px msg of None \<Rightarrow> Inr None | Some v \<Rightarrow> to_fixed scaled multiplier v) of
              Inl e \<Rightarrow> Inl e
            | Inr bid \<Rightarrow>
                (case (case ask_px msg of None \<Rightarrow> Inr None
                       | Some v \<Rightarrow> to_fixed scaled multiplier v) of
                   Inl e \<Rightarrow> Inl e
                 | Inr ask \<Rightarrow>
                     (case (case trade_px msg of None \<Rightarrow> Inr None
                            | Some v \<Rightarrow> to_fixed scaled multiplier v) of
                        Inl e \<Rightarrow> Inl e
                      | Inr trade \<Rightarrow>
                          Inr (Some \<lparr>timestamp_ns = timestamp, symbol = sym, tick_type = ttype,
                                     bid_price = bid, ask_price = ask, trade_price = trade,
                                     bid_size = bid_sz msg, ask_size = ask_sz msg,
                                     trade_size = trade_sz msg, exchange = msg_exchange msg,
                                     vendor = Some DATABENTO, sequence_num = msg_sequence msg,
                                     price_precision = precision\<rparr>)))))"

text \<open>
  A Bloomberg event: a field is \<open>None\<close> when \<open>event.get\<close> gives \<open>None\<close>. The truth value
  Python gives a price (\<open>if bid\<close>: false for zero) is the parameter \<open>nonzero\<close>.
\<close>

record 'n bbg_event =
  ev_type :: "string option"
  ev_symbol :: "string option"
  ev_BID :: "'n option"
  ev_ASK :: "'n option"
  ev_LAST_PRICE :: "'n option"
  ev_BID_SIZE :: "int option"
  ev_ASK_SIZE :: "int option"

definition bbg_price ::
    "('n \<Rightarrow> int \<Rightarrow> py_error + int) \<Rightarrow> ('n \<Rightarrow> bool) \<Rightarrow> int \<Rightarrow> 'n option
      \<Rightarrow> py_error + int option" where
  "bbg_price scaled nonzero multiplier x =
     (case x of
        None \<Rightarrow> Inr None
      | Some v \<Rightarrow> if nonzero v then to_fixed scaled multiplier v else Inr None)"

text \<open>\<open>BloombergHandler._parse_event\<close>; \<open>now\<close> is the reading of \<open>current_time_ns()\<close>.\<close>

definition bbg_parse_event ::
    "('n \<Rightarrow> int \<Rightarrow> py_error + int) \<Rightarrow> ('n \<Rightarrow> bool) \<Rightarrow> 'n bbg_event \<Rightarrow> int
      \<Rightarrow> py_error + Tick option" where
  "bbg_parse_event scaled nonzero event now =
     (if ev_type event \<noteq> Some ''SUBSCRIPTION_DATA'' then Inr None
      else
        (let sym = (case ev_symbol event of None \<Rightarrow> [] | Some s \<Rightarrow> s);
             bid = ev_BID event; ask = ev_ASK event; last = ev_LAST_PRICE event;
             precision = 4;
             multiplier = 10 ^ 4;
             ttype = (if last \<noteq> None then TRADE
                      else if bid \<noteq> None \<and> ask \<noteq> None then BBO
                      else QUOTE)
         in case bbg_price scaled nonzero multiplier bid of
              Inl e \<Rightarrow> Inl e
            | Inr b \<Rightarrow>
                (case bbg_price scaled nonzero multiplier ask of
                   Inl e \<Rightarrow> Inl e
                 | Inr a \<Rightarrow>
                     (case bbg_price scaled nonzero multiplier last of
                        Inl e \<Rightarrow> Inl e
                      | Inr l \<Rightarrow>
                          Inr (Some \<lparr>timestamp_ns = now, symbol = sym, tick_type = ttype,
                                     bid_price = b, ask_price = a, trade_price = l,
                                     bid_size = ev_BID_SIZE event, ask_size = ev_ASK_SIZE event,
                                     trade_size = None, exchange = None,
                                     vendor = Some BLOOMBERG, sequence_num = None,
                                     price_precision = precision\<rparr>)))))"

text \<open>Integer-valued price fields, for concrete runs: \<open>int(v * m)\<close> is \<open>v * m\<close>.\<close>

definition scaled_int :: "int \<Rightarrow> int \<Rightarrow> py_error + int" where
  "scaled_int v m = Inr (v * m)"

definition symbol_only_message :: "int dbn_message" where
  "symbol_only_message =
     \<lparr>msg_type = None, msg_symbol = Some ''ESZ4'', ts_event = Some 1700000000000000000,
      bid_px = None, ask_px = None, trade_px = None, bid_sz = None, ask_sz = None,
      trade_sz = None, msg_exchange = None, msg_sequence = Some 1\<rparr>"

definition bbo_message :: "int dbn_message" where
  "bbo_message = symbol_only_message\<lparr>bid_px := Some 4532, ask_px := Some 4533\<rparr>"

definition bbo_event :: "int bbg_event" where
  "bbo_event =
     \<lparr>ev_type = Some ''SUBSCRIPTION_DATA'', ev_symbol = Some ''ESZ4 Index'',
      ev_BID = Some 4532, ev_ASK = Some 4533, ev_LAST_PRICE = None,
      ev_BID_SIZE = Some 150, ev_ASK_SIZE = Some 200\<rparr>"

definition priceless_event :: "int bbg_event" where
  "priceless_event = bbo_event\<lparr>ev_BID := None, ev_ASK := None\<rparr>"

subsection \<open>Subscriptions\<close>

text \<open>
  What a handler sends to its vendor. The awaited send is taken to return; the socket and
  the Bloomberg session are outside the handler's state.
\<close>

datatype request = SubscribeRequest "string list" | UnsubscribeRequest "string list"

text \<open>\<open>for symbol in symbols: self._stats[symbol] = FeedStats(vendor=self.vendor, symbol=symbol)\<close>\<close>

definition reset_stats ::
    "Vendor \<Rightarrow> string list \<Rightarrow> (string \<rightharpoonup> FeedStats) \<Rightarrow> (string \<rightharpoonup> FeedStats)" where
  "reset_stats v symbols st = foldl (\<lambda>m s. m(s \<mapsto> FeedStats_init v s)) st symbols"

text \<open>
  \<open>for symbol in symbols: if symbol in self._subscriptions: self._subscriptions.remove(symbol)\<close>;
  \<open>list.remove\<close> deletes the first occurrence. The argument \<open>symbols\<close> is a list of its
  own: a caller that passes the handler's list object itself has it changed under the
  iteration, which a list value does not show.
\<close>

definition remove_each :: "string list \<Rightarrow> string list \<Rightarrow> string list" where
  "remove_each symbols subs = foldl (\<lambda>l s. if s \<in> set l then remove1 s l else l) subs symbols"

record DatabentoHandler = FeedHandler +
  has_writer :: bool

definition DatabentoHandler_init :: "bool \<Rightarrow> DatabentoHandler" where
  "DatabentoHandler_init has_on_error =
     \<lparr>fh_vendor = DATABENTO, on_error_set = has_on_error, running = False, connected = False,
      fh_stats = Map.empty, reconnect_delay = 1, max_reconnect_delay = 60,
      subscriptions = [], has_writer = False\<rparr>"

definition dbn_subscribe ::
    "string list \<Rightarrow> DatabentoHandler \<Rightarrow> DatabentoHandler \<times> request list" where
  "dbn_subscribe symbols h =
     (h\<lparr>subscriptions := subscriptions h @ symbols,
        fh_stats := reset_stats (fh_vendor h) symbols (fh_stats h)\<rparr>,
      if has_writer h then [SubscribeRequest symbols] else [])"

definition dbn_unsubscribe ::
    "string list \<Rightarrow> DatabentoHandler \<Rightarrow> DatabentoHandler \<times> request list" where
  "dbn_unsubscribe symbols h =
     (h\<lparr>subscriptions := remove_each symbols (subscriptions h)\<rparr>,
      if has_writer h then [UnsubscribeRequest symbols] else [])"

text \<open>
  \<open>BloombergHandler\<close>: the same updates of the handler's own fields; the requests go to
  the session. Without a session \<open>subscribe\<close> raises, after the list was extended and
  before the statistics are set up: the first component of the result is the exception.
\<close>

record BloombergHandler = FeedHandler +
  has_session :: bool

definition BloombergHandler_init :: "bool \<Rightarrow> BloombergHandler" where
  "BloombergHandler_init has_on_error =
     \<lparr>fh_vendor = BLOOMBERG, on_error_set = has_on_error, running = False, connected = False,
      fh_stats = Map.empty, reconnect_delay = 1, max_reconnect_delay = 60,
      subscriptions = [], has_session = False\<rparr>"

definition bbg_subscribe ::
    "string list \<Rightarrow> BloombergHandler \<Rightarrow> py_error option \<times> BloombergHandler \<times> request list" where
  "bbg_subscribe symbols h =
     (let h1 = h\<lparr>subscriptions := subscriptions h @ symbols\<rparr> in
      if has_session h1 then
        (None, h1\<lparr>fh_stats := reset_stats (fh_vendor h1) symbols (fh_stats h1)\<rparr>,
         [SubscribeRequest symbols])
      else (Some AttributeError, h1, []))"

definition bbg_unsubscribe ::
    "string list \<Rightarrow> BloombergHandler \<Rightarrow> BloombergHandler \<times> request list" where
  "bbg_unsubscribe symbols h =
     (h\<lparr>subscriptions := remove_each symbols (subscriptions h)\<rparr>,
      if has_session h then [UnsubscribeRequest symbols] else [])"

subsection \<open>CMEHandler (handlers/cme\_handler.py)\<close>

record Book =
  bids :: "int \<rightharpoonup> int"
  asks :: "int \<rightharpoonup> int"

definition empty_book :: Book where
  "empty_book = \<lparr>bids = Map.empty, asks = Map.empty\<rparr>"

record CMEHandler = FeedHandler +
  expected_seq :: int
  gaps :: "(int \<times> int) list"
  security_map :: "int \<rightharpoonup> string"
  books :: "string \<rightharpoonup> Book"

definition CMEHandler_init :: "bool \<Rightarrow> CMEHandler" where
  "CMEHandler_init has_on_error =
     \<lparr>fh_vendor = CME, on_error_set = has_on_error, running = False, connected = False,
      fh_stats = Map.empty, reconnect_delay = 1, max_reconnect_delay = 60,
      subscriptions = [], expected_seq = 0, gaps = [], security_map = Map.empty,
      books = Map.empty\<rparr>"

definition cme_subscribe :: "string list \<Rightarrow> CMEHandler \<Rightarrow> CMEHandler" where
  "cme_subscribe symbols h =
     foldl (\<lambda>g s. g\<lparr>fh_stats := (fh_stats g)(s \<mapsto> FeedStats_init (fh_vendor g) s),
                      books := (books g)(s \<mapsto> empty_book)\<rparr>)
       (h\<lparr>subscriptions := subscriptions h @ symbols\<rparr>) symbols"

definition cme_unsubscribe :: "string list \<Rightarrow> CMEHandler \<Rightarrow> CMEHandler" where
  "cme_unsubscribe symbols h =
     foldl (\<lambda>g s.
        (let g1 = (if s \<in> set (subscriptions g)
                   then g\<lparr>subscriptions := remove1 s (subscriptions g)\<rparr> else g)
         in if s \<in> dom (books g1) then g1\<lparr>books := (books g1)(s := None)\<rparr> else g1))
       h symbols"

text \<open>Every symbol that has a book is in the subscription list.\<close>

definition books_subscribed :: "CMEHandler \<Rightarrow> bool" where
  "books_subscribed h \<longleftrightarrow> dom (books h) \<subseteq> set (subscriptions h)"

subsection \<open>CME packets\<close>

type_synonym byte = "8 word"

text \<open>\<open>struct.unpack\<close> of a little-endian unsigned integer, and of a signed 64-bit one.\<close>

fun le_uint :: "byte list \<Rightarrow> int" where
  "le_uint [] = 0"
| "le_uint (b # bs) = uint b + 256 * le_uint bs"

definition le_int64 :: "byte list \<Rightarrow> int" where
  "le_int64 bs = (let n = le_uint bs in if n \<ge> 2 ^ 63 then n - 2 ^ 64 else n)"

text \<open>The slice \<open>data[a:b]\<close> for indices that are not negative.\<close>

definition slice :: "nat \<Rightarrow> nat \<Rightarrow> 'a list \<Rightarrow> 'a list" where
  "slice a b xs = take (b - a) (drop a xs)"

text \<open>\<open>str\<close> of a number that is not negative, for \<open>f"SEC_{security_id}"\<close>.\<close>

fun str_nat :: "nat \<Rightarrow> string" where
  "str_nat n =
     (if n < 10 then [char_of (48 + n)] else str_nat (n div 10) @ [char_of (48 + n mod 10)])"

definition cme_tick :: "int \<Rightarrow> string \<Rightarrow> Tick" where
  "cme_tick timestamp s =
     \<lparr>timestamp_ns = timestamp, symbol = s, tick_type = QUOTE, bid_price = None,
      ask_price = None, trade_price = None, bid_size = None, ask_size = None,
      trade_size = None, exchange = None, vendor = Some CME, sequence_num = None,
      price_precision = 7\<rparr>"

text \<open>
  \<open>_parse_incremental_refresh\<close>. With at least 20 bytes every slice has its full length,
  so no \<open>unpack\<close> raises and the \<open>except\<close> clause is never entered.
\<close>

definition parse_incremental_refresh :: "(int \<rightharpoonup> string) \<Rightarrow> byte list \<Rightarrow> int \<Rightarrow> Tick list" where
  "parse_incremental_refresh smap data timestamp =
     (if length data < 20 then []
      else
        (let entry_type = uint (data ! 0);
             security_id = le_uint (slice 1 5 data);
             price = le_int64 (slice 5 13 data);
             sz = le_uint (slice 13 17 data);
             sym = (case smap security_id of
                      Some s \<Rightarrow> s
                    | None \<Rightarrow> ''SEC_'' @ str_nat (nat security_id))
         in if entry_type = 48 then
              [(cme_tick timestamp sym)\<lparr>bid_price := Some price, bid_size := Some sz\<rparr>]
            else if entry_type = 49 then
              [(cme_tick timestamp sym)\<lparr>ask_price := Some price, ask_size := Some sz\<rparr>]
            else if entry_type = 50 then
              [(cme_tick timestamp sym)\<lparr>tick_type := TRADE, trade_price := Some price,
                                         trade_size := Some sz\<rparr>]
            else []))"

text \<open>
  The message loop of \<open>parse_packet\<close>; each message has a 10-byte header, whose fields
  are unsigned 16-bit numbers. \<open>msg_size\<close> is the first of them, \<open>template_id\<close> the third.
\<close>

definition msg_size :: "byte list \<Rightarrow> nat \<Rightarrow> nat" where
  "msg_size data offset = nat (le_uint (slice offset (offset + 2) data))"

definition template_id :: "byte list \<Rightarrow> nat \<Rightarrow> int" where
  "template_id data offset = le_uint (slice (offset + 4) (offset + 6) data)"

function parse_messages ::
    "(int \<rightharpoonup> string) \<Rightarrow> int \<Rightarrow> byte list \<Rightarrow> nat \<Rightarrow> Tick list \<Rightarrow> Tick list" where
  "parse_messages smap sending_time data offset ticks =
     (if offset + 10 \<le> length data then
        (if msg_size data offset = 0 then ticks
         else
           parse_messages smap sending_time data (offset + msg_size data offset)
             (if template_id data offset = 32
              then ticks @
                   parse_incremental_refresh smap
                     (slice (offset + 10) (offset + msg_size data offset) data) sending_time
              else ticks))
      else ticks)"
  by pat_completeness auto
termination
  by (relation "measure (\<lambda>(smap, sending_time, data, offset, ticks). length data - offset)") auto

definition packet_seq :: "byte list \<Rightarrow> int" where
  "packet_seq data = le_uint (slice 0 4 data)"

definition packet_sending_time :: "byte list \<Rightarrow> int" where
  "packet_sending_time data = le_uint (slice 4 12 data)"

text \<open>\<open>CMEHandler.parse_packet\<close>: the ticks returned and the handler after the call.\<close>

definition parse_packet :: "byte list \<Rightarrow> CMEHandler \<Rightarrow> Tick list \<times> CMEHandler" where
  "parse_packet data h =
     (if length data < 12 then ([], h)
      else
        (let seq_num = packet_seq data;
             sending_time = packet_sending_time data;
             h1 = (if expected_seq h > 0 \<and> seq_num \<noteq> expected_seq h
                   then (if seq_num > expected_seq h
                         then h\<lparr>gaps := gaps h @ [(expected_seq h, seq_num - 1)]\<rparr> else h)
                   else h);
             h2 = h1\<lparr>expected_seq := seq_num + 1\<rparr>
         in (parse_messages (security_map h2) sending_time data 12 [], h2)))"

text \<open>Packets received one after the other.\<close>

fun parse_packets :: "byte list list \<Rightarrow> CMEHandler \<Rightarrow> Tick list \<times> CMEHandler" where
  "parse_packets [] h = ([], h)"
| "parse_packets (p # ps) h =
     (case parse_packet p h of
        (ticks, h') \<Rightarrow> (case parse_packets ps h' of (ticks', h'') \<Rightarrow> (ticks @ ticks', h'')))"

text \<open>
  \<open>FeedStats.update\<close>; the floating-point average is the parameter \<open>ewma\<close>.
\<close>

definition FeedStats_update ::
    "(int \<Rightarrow> int \<Rightarrow> int) \<Rightarrow> Tick \<Rightarrow> int \<Rightarrow> FeedStats \<Rightarrow> FeedStats" where
  "FeedStats_update ewma tick receive_time_ns fs =
     (let fs1 = fs\<lparr>fs_ticks_received := fs_ticks_received fs + 1\<rparr>;
          fs2 = (case sequence_num tick of
                   None \<Rightarrow> fs1
                 | Some sq \<Rightarrow>
                     (if last_sequence fs1 > 0 \<and> sq \<noteq> last_sequence fs1 + 1
                      then fs1\<lparr>gaps_detected := gaps_detected fs1 + 1\<rparr> else fs1)
                     \<lparr>last_sequence := sq\<rparr>);
          fs3 = (if timestamp_ns tick > 0 then
                   (let latency = receive_time_ns - timestamp_ns tick in
                    if latency_ns_avg fs2 = 0 then fs2\<lparr>latency_ns_avg := latency\<rparr>
                    else fs2\<lparr>latency_ns_avg := ewma (latency_ns_avg fs2) latency\<rparr>)
                 else fs2)
      in fs3\<lparr>last_tick_time_ns := receive_time_ns\<rparr>)"

text \<open>
  The read loop \<open>CMEHandler._read_messages\<close> on a tick taken from the queue: a tick of a
  subscribed symbol updates the statistics of its symbol, when there are any, and is
  yielded; \<open>receive_time\<close> is the clock reading.
\<close>

definition cme_deliver :: "(int \<Rightarrow> int \<Rightarrow> int) \<Rightarrow> int \<Rightarrow> Tick \<Rightarrow> CMEHandler \<Rightarrow> CMEHandler" where
  "cme_deliver ewma receive_time tick h =
     (if symbol tick \<in> set (subscriptions h) then
        (case fh_stats h (symbol tick) of
           None \<Rightarrow> h
         | Some fs \<Rightarrow>
             h\<lparr>fh_stats := (fh_stats h)(symbol tick \<mapsto> FeedStats_update ewma tick receive_time fs)\<rparr>)
      else h)"

text \<open>
  The handlers reached from a new one. \<open>subscribe\<close>, \<open>unsubscribe\<close>, a received packet and
  a delivered tick are the functions above. \<open>connect\<close>, \<open>disconnect\<close>, \<open>stop\<close> and the
  supervisor loop \<open>start\<close> write only the fields \<open>_running\<close>, \<open>_connected\<close> and
  \<open>_reconnect_delay\<close> of a CME handler: every assignment they make is a rule, in any
  order, and the loop's call of \<open>subscribe\<close> with the handler's own list is the subscribe
  rule at \<open>subscriptions h\<close>.
\<close>

inductive cme_reachable :: "CMEHandler \<Rightarrow> bool" where
  cme_new: "cme_reachable (CMEHandler_init has_on_error)"
| cme_after_subscribe: "cme_reachable h \<Longrightarrow> cme_reachable (cme_subscribe symbols h)"
| cme_after_unsubscribe: "cme_reachable h \<Longrightarrow> cme_reachable (cme_unsubscribe symbols h)"
| cme_after_packet: "cme_reachable h \<Longrightarrow> cme_reachable (snd (parse_packet data h))"
| cme_after_tick: "cme_reachable h \<Longrightarrow> cme_reachable (cme_deliver ewma receive_time tick h)"
| cme_set_running: "cme_reachable h \<Longrightarrow> cme_reachable (h\<lparr>running := b\<rparr>)"
| cme_set_connected: "cme_reachable h \<Longrightarrow> cme_reachable (h\<lparr>connected := b\<rparr>)"
| cme_reset_delay: "cme_reachable h \<Longrightarrow> cme_reachable (h\<lparr>reconnect_delay := 1\<rparr>)"
| cme_backoff:
    "cme_reachable h \<Longrightarrow>
     cme_reachable (h\<lparr>reconnect_delay := min (reconnect_delay h * 2) (max_reconnect_delay h)\<rparr>)"

text \<open>
  A packet for concrete runs: the header with the given sequence number, and one
  incremental-refresh message (size 30, template 32) carrying a bid for security 7.
\<close>

fun le_bytes :: "nat \<Rightarrow> int \<Rightarrow> byte list" where
  "le_bytes 0 v = []"
| "le_bytes (Suc n) v = word_of_int (v mod 256) # le_bytes n (v div 256)"

definition example_packet :: "int \<Rightarrow> byte list" where
  "example_packet sq =
     le_bytes 4 sq @ le_bytes 8 1700000000000000000 @
     le_bytes 2 30 @ le_bytes 2 20 @ le_bytes 2 32 @ le_bytes 2 1 @ le_bytes 2 9 @
     [48] @ le_bytes 4 7 @ le_bytes 8 45322500000 @ le_bytes 4 150 @ [0, 0, 0]"

section \<open>RingBuffer: invariant, FIFO contents, capacity\<close>

lemma and_pow2_mask: "x AND (2 ^ k - 1) = x mod (2 ^ k :: int)"
  by (simp flip: mask_eq_exp_minus_1 take_bit_eq_mask add: take_bit_eq_mod)

lemma bit_length_nat_upper: "n < 2 ^ bit_length_nat n"
proof (induction n rule: bit_length_nat.induct)
  case (1 n)
  show ?case
  proof (cases "n = 0")
    case True
    then show ?thesis by simp
  next
    case False
    with 1 have "n div 2 < 2 ^ bit_length_nat (n div 2)" by simp
    then have "n < 2 * 2 ^ bit_length_nat (n div 2)" by linarith
    with False show ?thesis by (subst bit_length_nat.simps) simp
  qed
qed

lemma bit_length_nat_least: "n < 2 ^ j \<Longrightarrow> bit_length_nat n \<le> j"
proof (induction n arbitrary: j rule: bit_length_nat.induct)
  case (1 n)
  show ?case
  proof (cases "n = 0")
    case True
    then show ?thesis by simp
  next
    case False
    with 1(2) obtain j' where j: "j = Suc j'" by (cases j) auto
    with 1(2) have "n div 2 < 2 ^ j'" by auto
    with 1(1) False have "bit_length_nat (n div 2) \<le> j'" by simp
    with False j show ?thesis by (subst bit_length_nat.simps) simp
  qed
qed

lemma sub_mod_cases:
  "0 \<le> a \<Longrightarrow> a < c \<Longrightarrow> 0 \<le> b \<Longrightarrow> b < c \<Longrightarrow>
   (a - b) mod c = (if b \<le> a then a - b else a - b + (c::int))"
proof (cases "b \<le> a")
  case True
  assume "0 \<le> a" "a < c" "0 \<le> b" "b < c"
  with True show ?thesis by (simp add: mod_pos_pos_trivial)
next
  case False
  assume h: "0 \<le> a" "a < c" "0 \<le> b" "b < c"
  have "(a - b) mod c = (a - b + c) mod c" by simp
  also have "\<dots> = a - b + c" using h False by (intro mod_pos_pos_trivial) auto
  finally show ?thesis using False by simp
qed

lemma add_mod_cases:
  "0 \<le> a \<Longrightarrow> a < c \<Longrightarrow> 0 \<le> i \<Longrightarrow> i \<le> c \<Longrightarrow>
   (a + i) mod c = (if a + i < c then a + i else a + i - (c::int))"
proof (cases "a + i < c")
  case True
  assume "0 \<le> a" "a < c" "0 \<le> i" "i \<le> c"
  with True show ?thesis by (simp add: mod_pos_pos_trivial)
next
  case False
  assume h: "0 \<le> a" "a < c" "0 \<le> i" "i \<le> c"
  have "(a + i) mod c = (a + i - c) mod c" by simp
  also have "\<dots> = a + i - c" using h False by (intro mod_pos_pos_trivial) auto
  finally show ?thesis using False by simp
qed

lemma rb_inv_size:
  assumes "rb_inv r"
  shows "rb_size r = (if read_idx r \<le> write_idx r then write_idx r - read_idx r
                      else write_idx r - read_idx r + rb_capacity r)"
proof -
  from assms obtain k where k: "rb_capacity r = 2 ^ k" by (auto simp: rb_inv_def)
  from assms have b: "0 \<le> write_idx r" "write_idx r < rb_capacity r"
    "0 \<le> read_idx r" "read_idx r < rb_capacity r" "rb_mask r = rb_capacity r - 1"
    by (auto simp: rb_inv_def)
  have "rb_size r = (write_idx r - read_idx r) mod rb_capacity r"
    by (simp add: rb_size_def b k and_pow2_mask)
  then show ?thesis using b by (simp add: sub_mod_cases)
qed

lemma rb_inv_size_bounds:
  assumes "rb_inv r"
  shows "0 \<le> rb_size r" "rb_size r \<le> rb_capacity r - 1"
  using assms rb_inv_size [OF assms] by (auto simp: rb_inv_def)

lemma rb_inv_next:
  assumes "rb_inv r" "0 \<le> x" "x < rb_capacity r"
  shows "(x + 1) AND rb_mask r = (if x + 1 < rb_capacity r then x + 1 else 0)"
proof -
  from assms obtain k where k: "rb_capacity r = 2 ^ k" by (auto simp: rb_inv_def)
  from assms have m: "rb_mask r = rb_capacity r - 1" by (auto simp: rb_inv_def)
  have "(x + 1) AND rb_mask r = (x + 1) mod rb_capacity r"
    by (simp add: m k and_pow2_mask)
  also have "\<dots> = (if x + 1 < rb_capacity r then x + 1 else x + 1 - rb_capacity r)"
    using assms(2,3) by (intro add_mod_cases) auto
  finally show ?thesis using assms(2,3) by auto
qed

lemma rb_inv_slot:
  assumes "rb_inv r" "0 \<le> i" "i < rb_capacity r"
  shows "(read_idx r + i) mod rb_capacity r =
         (if read_idx r + i < rb_capacity r then read_idx r + i
          else read_idx r + i - rb_capacity r)"
  using assms by (intro add_mod_cases) (auto simp: rb_inv_def)

lemma rb_inv_init: "rb_inv (RingBuffer_init cap)"
proof -
  have "(0::int) < 2 ^ bit_length (cap - 1)" by simp
  then show ?thesis
    by (auto simp: rb_inv_def RingBuffer_init_def Let_def push_bit_eq_mult rb_size_def)
qed

lemma py_index_in_range:
  "0 \<le> i \<Longrightarrow> i < int (length xs) \<Longrightarrow> py_index xs i = Some (nat i)"
  by (simp add: py_index_def)

lemma rb_push_full:
  assumes inv: "rb_inv r" and full: "(write_idx r + 1) AND rb_mask r = read_idx r"
  shows "rb_push t r = Some (False, r)" "rb_size r = rb_capacity r - 1"
proof -
  show "rb_push t r = Some (False, r)" using full by (simp add: rb_push_def)
  from inv have b: "0 \<le> write_idx r" "write_idx r < rb_capacity r"
    by (auto simp: rb_inv_def)
  from full rb_inv_next [OF inv b]
  have "read_idx r = (if write_idx r + 1 < rb_capacity r then write_idx r + 1 else 0)"
    by simp
  with b show "rb_size r = rb_capacity r - 1"
    by (auto simp: rb_inv_size [OF inv] split: if_splits)
qed

lemma rb_push_room:
  fixes t :: Tick and r :: RingBuffer
  assumes inv: "rb_inv r" and room: "(write_idx r + 1) AND rb_mask r \<noteq> read_idx r"
  defines "r' \<equiv> r\<lparr>rb_buffer := (rb_buffer r)[nat (write_idx r) := Some t],
                    write_idx := (write_idx r + 1) AND rb_mask r\<rparr>"
  shows "rb_push t r = Some (True, r')" "rb_inv r'" "rb_size r' = rb_size r + 1"
    "rb_contents r' = rb_contents r @ [Some t]"
proof -
  let ?c = "rb_capacity r" and ?w = "write_idx r" and ?rd = "read_idx r"
  let ?n = "if ?w + 1 < ?c then ?w + 1 else 0"
  from inv have b: "0 \<le> ?w" "?w < ?c" "0 \<le> ?rd" "?rd < ?c"
    and len: "int (length (rb_buffer r)) = ?c"
    and cells: "\<And>i. 0 \<le> i \<Longrightarrow> i < rb_size r \<Longrightarrow>
                  rb_buffer r ! nat ((?rd + i) mod ?c) \<noteq> None"
    by (auto simp: rb_inv_def)
  have nxt: "(?w + 1) AND rb_mask r = ?n" by (rule rb_inv_next [OF inv b(1,2)])
  have idx: "py_index (rb_buffer r) ?w = Some (nat ?w)"
    using b len by (simp add: py_index_in_range)
  show push: "rb_push t r = Some (True, r')"
    using room idx by (simp add: rb_push_def r'_def Let_def)
  have sz: "rb_size r = (if ?rd \<le> ?w then ?w - ?rd else ?w - ?rd + ?c)"
    by (rule rb_inv_size [OF inv])
  have sz_lt: "rb_size r + 1 < ?c"
    using room b unfolding nxt sz by (auto split: if_splits)
  have w': "write_idx r' = ?n" "read_idx r' = ?rd" by (simp_all add: r'_def nxt)
  have sz': "rb_size r' = (?n - ?rd) mod ?c"
  proof -
    from inv obtain k where k: "?c = 2 ^ k" by (auto simp: rb_inv_def)
    from inv have "rb_mask r' = ?c - 1" by (auto simp: rb_inv_def r'_def)
    then have "rb_size r' = (write_idx r' - read_idx r') AND (2 ^ k - 1)"
      by (simp add: rb_size_def k)
    also have "\<dots> = (write_idx r' - read_idx r') mod ?c"
      unfolding k by (rule and_pow2_mask)
    finally show ?thesis unfolding w' .
  qed
  have n_b: "0 \<le> ?n" "?n < ?c" using b by auto
  have "(?n - ?rd) mod ?c = (if ?rd \<le> ?n then ?n - ?rd else ?n - ?rd + ?c)"
    by (rule sub_mod_cases [OF n_b b(3,4)])
  with sz' have sz'': "rb_size r' = (if ?rd \<le> ?n then ?n - ?rd else ?n - ?rd + ?c)"
    by simp
  show size': "rb_size r' = rb_size r + 1"
    using room b unfolding sz'' sz nxt by (auto split: if_splits)
  have slot_w: "(?rd + rb_size r) mod ?c = ?w"
  proof -
    have "0 \<le> rb_size r" "rb_size r < ?c" using sz_lt rb_inv_size_bounds [OF inv] by auto
    from rb_inv_slot [OF inv this] show ?thesis using b unfolding sz by (auto split: if_splits)
  qed
  have slot_other: "(?rd + i) mod ?c \<noteq> ?w" if "0 \<le> i" "i < rb_size r" for i
  proof -
    from that sz_lt have "i < ?c" by simp
    from rb_inv_slot [OF inv that(1) this] that b show ?thesis
      unfolding sz by (auto split: if_splits)
  qed
  have slot_b: "0 \<le> (?rd + i) mod ?c" "(?rd + i) mod ?c < ?c" for i
    using b by auto
  have cell': "rb_buffer r' ! nat ((?rd + i) mod ?c) =
               (if i = rb_size r then Some t else rb_buffer r ! nat ((?rd + i) mod ?c))"
    if "0 \<le> i" "i \<le> rb_size r" for i
  proof (cases "i = rb_size r")
    case True
    then show ?thesis using slot_w b len by (simp add: r'_def)
  next
    case False
    with that have "i < rb_size r" by simp
    have "0 \<le> (?rd + i) mod ?c" by (rule slot_b)
    with slot_other [OF that(1) \<open>i < rb_size r\<close>] b(1)
    have "nat ((?rd + i) mod ?c) \<noteq> nat ?w"
      by (simp add: eq_nat_nat_iff)
    with False show ?thesis by (simp add: r'_def)
  qed
  show "rb_inv r'"
    unfolding rb_inv_def
  proof (intro conjI allI impI)
    show "\<exists>k. rb_capacity r' = 2 ^ k" using inv by (auto simp: rb_inv_def r'_def)
    show "rb_mask r' = rb_capacity r' - 1" using inv by (auto simp: rb_inv_def r'_def)
    show "int (length (rb_buffer r')) = rb_capacity r'" using len by (simp add: r'_def)
    show "0 \<le> write_idx r'" "write_idx r' < rb_capacity r'"
      using n_b by (simp_all add: r'_def nxt)
    show "0 \<le> read_idx r'" "read_idx r' < rb_capacity r'"
      using b by (simp_all add: r'_def)
  next
    fix i assume i: "0 \<le> i \<and> i < rb_size r'"
    then have "0 \<le> i" "i \<le> rb_size r" using size' by auto
    from cell' [OF this] cells [of i] i size'
    show "rb_buffer r' ! nat ((read_idx r' + i) mod rb_capacity r') \<noteq> None"
      by (auto simp: r'_def split: if_splits)
  qed
  show "rb_contents r' = rb_contents r @ [Some t]"
  proof -
    have nn: "0 \<le> rb_size r" using rb_inv_size_bounds [OF inv] by simp
    then have up: "[0 ..< nat (rb_size r')] = [0 ..< nat (rb_size r)] @ [nat (rb_size r)]"
      by (simp add: size' nat_add_distrib)
    have old: "map (\<lambda>i. rb_buffer r' ! nat ((?rd + int i) mod ?c)) [0 ..< nat (rb_size r)]
             = map (\<lambda>i. rb_buffer r ! nat ((?rd + int i) mod ?c)) [0 ..< nat (rb_size r)]"
    proof (rule map_cong [OF refl])
      fix i assume "i \<in> set [0 ..< nat (rb_size r)]"
      then have "0 \<le> int i" "int i \<le> rb_size r" "int i \<noteq> rb_size r" by auto
      with cell' [of "int i"]
      show "rb_buffer r' ! nat ((?rd + int i) mod ?c) = rb_buffer r ! nat ((?rd + int i) mod ?c)"
        by simp
    qed
    have new: "rb_buffer r' ! nat ((?rd + int (nat (rb_size r))) mod ?c) = Some t"
      using cell' [of "rb_size r"] nn by simp
    have "rb_contents r' =
          map (\<lambda>i. rb_buffer r' ! nat ((?rd + int i) mod ?c)) [0 ..< nat (rb_size r')]"
      by (simp add: rb_contents_def r'_def)
    also have "\<dots> = rb_contents r @ [Some t]"
      unfolding up map_append old using new by (simp add: rb_contents_def)
    finally show ?thesis .
  qed
qed

lemma rb_pop_empty:
  assumes "read_idx r = write_idx r"
  shows "rb_pop r = Some (None, r)"
  using assms by (simp add: rb_pop_def)

lemma rb_inv_empty_size:
  assumes "rb_inv r"
  shows "rb_size r = 0 \<longleftrightarrow> read_idx r = write_idx r"
  using assms rb_inv_size [OF assms] by (auto simp: rb_inv_def split: if_splits)

lemma rb_pop_nonempty:
  fixes r :: RingBuffer
  assumes inv: "rb_inv r" and ne: "read_idx r \<noteq> write_idx r"
  defines "r' \<equiv> r\<lparr>rb_buffer := (rb_buffer r)[nat (read_idx r) := None],
                    read_idx := (read_idx r + 1) AND rb_mask r\<rparr>"
  shows "rb_pop r = Some (rb_buffer r ! nat (read_idx r), r')" "rb_inv r'"
    "rb_size r' = rb_size r - 1"
    "rb_contents r = (rb_buffer r ! nat (read_idx r)) # rb_contents r'"
    "rb_buffer r ! nat (read_idx r) \<noteq> None"
proof -
  let ?c = "rb_capacity r" and ?w = "write_idx r" and ?rd = "read_idx r"
  let ?n = "if ?rd + 1 < ?c then ?rd + 1 else 0"
  from inv have b: "0 \<le> ?w" "?w < ?c" "0 \<le> ?rd" "?rd < ?c"
    and len: "int (length (rb_buffer r)) = ?c"
    and cells: "\<And>i. 0 \<le> i \<Longrightarrow> i < rb_size r \<Longrightarrow>
                  rb_buffer r ! nat ((?rd + i) mod ?c) \<noteq> None"
    by (auto simp: rb_inv_def)
  have nxt: "(?rd + 1) AND rb_mask r = ?n" by (rule rb_inv_next [OF inv b(3,4)])
  have idx: "py_index (rb_buffer r) ?rd = Some (nat ?rd)"
    using b len by (simp add: py_index_in_range)
  show pop: "rb_pop r = Some (rb_buffer r ! nat ?rd, r')"
    using ne idx by (simp add: rb_pop_def r'_def)
  have sz: "rb_size r = (if ?rd \<le> ?w then ?w - ?rd else ?w - ?rd + ?c)"
    by (rule rb_inv_size [OF inv])
  have sz_pos: "0 < rb_size r" using ne b unfolding sz by (auto split: if_splits)
  have sz_lt: "rb_size r < ?c" using rb_inv_size_bounds [OF inv] by simp
  have w': "write_idx r' = ?w" "read_idx r' = ?n" by (simp_all add: r'_def nxt)
  have sz': "rb_size r' = (?w - ?n) mod ?c"
  proof -
    from inv obtain k where k: "?c = 2 ^ k" by (auto simp: rb_inv_def)
    from inv have "rb_mask r' = ?c - 1" by (auto simp: rb_inv_def r'_def)
    then have "rb_size r' = (write_idx r' - read_idx r') AND (2 ^ k - 1)"
      by (simp add: rb_size_def k)
    also have "\<dots> = (write_idx r' - read_idx r') mod ?c"
      unfolding k by (rule and_pow2_mask)
    finally show ?thesis unfolding w' .
  qed
  have n_b: "0 \<le> ?n" "?n < ?c" using b by auto
  have "(?w - ?n) mod ?c = (if ?n \<le> ?w then ?w - ?n else ?w - ?n + ?c)"
    by (rule sub_mod_cases [OF b(1,2) n_b])
  with sz' have sz'': "rb_size r' = (if ?n \<le> ?w then ?w - ?n else ?w - ?n + ?c)"
    by simp
  show size': "rb_size r' = rb_size r - 1"
    using ne b unfolding sz'' sz by (auto split: if_splits)
  have first: "(?rd + 0) mod ?c = ?rd" using b by (simp add: mod_pos_pos_trivial)
  from cells [of 0] sz_pos first show head: "rb_buffer r ! nat ?rd \<noteq> None" by simp
  have shift: "(?n + j) mod ?c = (?rd + (j + 1)) mod ?c" for j
  proof -
    have "?n = (?rd + 1) mod ?c"
      using add_mod_cases [of ?rd ?c 1] b by (auto split: if_splits)
    then have "(?n + j) mod ?c = ((?rd + 1) mod ?c + j) mod ?c" by simp
    also have "\<dots> = (?rd + 1 + j) mod ?c" by (rule mod_add_left_eq)
    finally show ?thesis by (simp add: algebra_simps)
  qed
  have slot_other: "(?rd + i) mod ?c \<noteq> ?rd" if "0 < i" "i < ?c" for i
  proof -
    from that have "0 \<le> i" by simp
    from rb_inv_slot [OF inv this that(2)] that b show ?thesis
      by (auto split: if_splits)
  qed
  have slot_b: "0 \<le> (?rd + i) mod ?c" for i
    using b by auto
  have cell': "rb_buffer r' ! nat ((?n + j) mod ?c) = rb_buffer r ! nat ((?rd + (j + 1)) mod ?c)"
    if "0 \<le> j" "j < rb_size r - 1" for j
  proof -
    from that sz_lt have "0 < j + 1" "j + 1 < ?c" by auto
    from slot_other [OF this] slot_b [of "j + 1"] b(3)
    have "nat ((?rd + (j + 1)) mod ?c) \<noteq> nat ?rd"
      by (simp add: eq_nat_nat_iff)
    then show ?thesis unfolding shift by (simp add: r'_def)
  qed
  show "rb_inv r'"
    unfolding rb_inv_def
  proof (intro conjI allI impI)
    show "\<exists>k. rb_capacity r' = 2 ^ k" using inv by (auto simp: rb_inv_def r'_def)
    show "rb_mask r' = rb_capacity r' - 1" using inv by (auto simp: rb_inv_def r'_def)
    show "int (length (rb_buffer r')) = rb_capacity r'" using len by (simp add: r'_def)
    show "0 \<le> write_idx r'" "write_idx r' < rb_capacity r'"
      using b by (simp_all add: r'_def)
    show "0 \<le> read_idx r'" "read_idx r' < rb_capacity r'"
      using n_b by (simp_all add: r'_def nxt)
  next
    fix i assume i: "0 \<le> i \<and> i < rb_size r'"
    then have j: "0 \<le> i" "i < rb_size r - 1" using size' by auto
    then have "0 \<le> i + 1" "i + 1 < rb_size r" by auto
    from cells [OF this] cell' [OF j]
    have "rb_buffer r' ! nat ((?n + i) mod ?c) \<noteq> None" by simp
    moreover have "rb_capacity r' = ?c" by (simp add: r'_def)
    ultimately show "rb_buffer r' ! nat ((read_idx r' + i) mod rb_capacity r') \<noteq> None"
      unfolding w' by simp
  qed
  show "rb_contents r = (rb_buffer r ! nat ?rd) # rb_contents r'"
  proof -
    have up: "[0 ..< nat (rb_size r)] = 0 # map Suc [0 ..< nat (rb_size r')]"
    proof -
      from sz_pos have "nat (rb_size r) = Suc (nat (rb_size r'))"
        by (simp add: size')
      then show ?thesis by (simp add: upt_conv_Cons map_Suc_upt del: upt_Suc)
    qed
    have rest: "map (\<lambda>i. rb_buffer r ! nat ((?rd + int (Suc i)) mod ?c)) [0 ..< nat (rb_size r')]
             = map (\<lambda>i. rb_buffer r' ! nat ((?n + int i) mod ?c)) [0 ..< nat (rb_size r')]"
    proof (rule map_cong [OF refl])
      fix i assume "i \<in> set [0 ..< nat (rb_size r')]"
      then have "0 \<le> int i" "int i < rb_size r - 1" using size' by auto
      from cell' [OF this]
      show "rb_buffer r ! nat ((?rd + int (Suc i)) mod ?c) = rb_buffer r' ! nat ((?n + int i) mod ?c)"
        by (simp add: algebra_simps)
    qed
    have c': "rb_contents r' =
          map (\<lambda>i. rb_buffer r' ! nat ((?n + int i) mod ?c)) [0 ..< nat (rb_size r')]"
      using w' by (simp add: rb_contents_def r'_def)
    have "rb_contents r =
          map (\<lambda>i. rb_buffer r ! nat ((?rd + int i) mod ?c)) (0 # map Suc [0 ..< nat (rb_size r')])"
      unfolding rb_contents_def up ..
    also have "\<dots> = (rb_buffer r ! nat ?rd) #
          map (\<lambda>i. rb_buffer r ! nat ((?rd + int (Suc i)) mod ?c)) [0 ..< nat (rb_size r')]"
      using first by (simp add: comp_def del: upt_Suc)
    finally show ?thesis unfolding rest c' .
  qed
qed

lemma rb_push_cases:
  assumes inv: "rb_inv r"
  obtains (full) "rb_push t r = Some (False, r)" "rb_size r = rb_capacity r - 1"
  | (room) r' where "rb_push t r = Some (True, r')" "rb_inv r'" "rb_size r' = rb_size r + 1"
      "rb_contents r' = rb_contents r @ [Some t]" "rb_capacity r' = rb_capacity r"
proof (cases "(write_idx r + 1) AND rb_mask r = read_idx r")
  case True
  show ?thesis by (rule full) (rule rb_push_full [OF inv True])+
next
  case False
  show ?thesis
  proof (rule room)
    show "rb_capacity (r\<lparr>rb_buffer := (rb_buffer r)[nat (write_idx r) := Some t],
                    write_idx := (write_idx r + 1) AND rb_mask r\<rparr>) = rb_capacity r"
      by simp
  qed (rule rb_push_room [OF inv False])+
qed

lemma rb_pop_cases:
  assumes inv: "rb_inv r"
  obtains (empty) "rb_pop r = Some (None, r)" "rb_size r = 0"
  | (item) t r' where "rb_pop r = Some (Some t, r')" "rb_inv r'" "rb_size r' = rb_size r - 1"
      "rb_contents r = Some t # rb_contents r'" "rb_capacity r' = rb_capacity r"
proof (cases "read_idx r = write_idx r")
  case True
  have "rb_size r = 0" using True rb_inv_empty_size [OF inv] by simp
  with rb_pop_empty [OF True] show ?thesis by (rule empty)
next
  case False
  let ?r' = "r\<lparr>rb_buffer := (rb_buffer r)[nat (read_idx r) := None],
                    read_idx := (read_idx r + 1) AND rb_mask r\<rparr>"
  from rb_pop_nonempty(5) [OF inv False] obtain t where
    t: "rb_buffer r ! nat (read_idx r) = Some t" by blast
  show ?thesis
  proof (rule item)
    show "rb_pop r = Some (Some t, ?r')"
      using rb_pop_nonempty(1) [OF inv False] unfolding t .
    show "rb_inv ?r'" by (rule rb_pop_nonempty(2) [OF inv False])
    show "rb_size ?r' = rb_size r - 1" by (rule rb_pop_nonempty(3) [OF inv False])
    show "rb_contents r = Some t # rb_contents ?r'"
      using rb_pop_nonempty(4) [OF inv False] unfolding t .
    show "rb_capacity ?r' = rb_capacity r" by simp
  qed
qed

lemma rb_push_inv:
  assumes inv: "rb_inv r" and p: "rb_push t r = Some (b, r')"
  shows "rb_inv r' \<and> rb_capacity r' = rb_capacity r"
proof (rule rb_push_cases [OF inv, of t])
  assume "rb_push t r = Some (False, r)"
  with p have "r' = r" by simp
  with inv show ?thesis by simp
next
  fix r1
  assume "rb_push t r = Some (True, r1)" "rb_inv r1" "rb_capacity r1 = rb_capacity r"
  with p show ?thesis by simp
qed

lemma rb_pop_inv:
  assumes inv: "rb_inv r" and p: "rb_pop r = Some (x, r')"
  shows "rb_inv r' \<and> rb_capacity r' = rb_capacity r"
proof (rule rb_pop_cases [OF inv])
  assume "rb_pop r = Some (None, r)"
  with p have "r' = r" by simp
  with inv show ?thesis by simp
next
  fix t r1
  assume "rb_pop r = Some (Some t, r1)" "rb_inv r1" "rb_capacity r1 = rb_capacity r"
  with p show ?thesis by simp
qed

lemma rb_reachable_inv: "rb_reachable cap r \<Longrightarrow> rb_inv r"
proof (induction rule: rb_reachable.induct)
  case rb_init
  show ?case by (rule rb_inv_init)
next
  case (rb_after_push r t b r')
  from rb_push_inv [OF rb_after_push.IH rb_after_push.hyps(2)] show ?case by simp
next
  case (rb_after_pop r x r')
  from rb_pop_inv [OF rb_after_pop.IH rb_after_pop.hyps(2)] show ?case by simp
qed

lemma rb_reachable_capacity:
  "rb_reachable cap r \<Longrightarrow> rb_capacity r = rb_capacity (RingBuffer_init cap)"
proof (induction rule: rb_reachable.induct)
  case rb_init
  show ?case by (rule refl)
next
  case (rb_after_push r t b r')
  from rb_push_inv [OF rb_reachable_inv [OF rb_after_push.hyps(1)] rb_after_push.hyps(2)]
    rb_after_push.IH show ?case by simp
next
  case (rb_after_pop r x r')
  from rb_pop_inv [OF rb_reachable_inv [OF rb_after_pop.hyps(1)] rb_after_pop.hyps(2)]
    rb_after_pop.IH show ?case by simp
qed

lemma rb_contents_length: "length (rb_contents r) = nat (rb_size r)"
  by (simp add: rb_contents_def)

lemma push_all_contents:
  "rb_inv r \<Longrightarrow> push_all ts r = Some (bs, r') \<Longrightarrow> \<forall>b\<in>set bs. b \<Longrightarrow>
   rb_inv r' \<and> rb_contents r' = rb_contents r @ map Some ts"
proof (induction ts arbitrary: r bs)
  case Nil
  then show ?case by simp
next
  case (Cons t ts)
  from Cons.prems(1) show ?case
  proof (cases rule: rb_push_cases [of r t])
    case full
    from Cons.prems(2) have "\<exists>bs'. bs = False # bs'"
      unfolding push_all.simps full(1) by (auto split: option.splits prod.splits)
    then obtain bs' where "bs = False # bs'" ..
    with Cons.prems(3) have False by simp
    then show ?thesis ..
  next
    case (room r1)
    from Cons.prems(2) obtain bs' where bs': "push_all ts r1 = Some (bs', r')" "bs = True # bs'"
      unfolding push_all.simps room(1) by (auto split: option.splits prod.splits)
    with Cons.prems(3) have "\<forall>b\<in>set bs'. b" by simp
    from Cons.IH [OF room(2) bs'(1) this] have "rb_inv r'"
      "rb_contents r' = rb_contents r1 @ map Some ts" by simp_all
    then show ?thesis unfolding room(4) by simp
  qed
qed

lemma pop_all_contents:
  "rb_inv r \<Longrightarrow> rb_contents r = map Some ts @ rest \<Longrightarrow>
   \<exists>r'. pop_all (length ts) r = Some (map Some ts, r') \<and> rb_inv r' \<and> rb_contents r' = rest"
proof (induction ts arbitrary: r)
  case Nil
  then show ?case by simp
next
  case (Cons t ts)
  from Cons.prems(1) show ?case
  proof (cases rule: rb_pop_cases [of r])
    case empty
    from Cons.prems(2) have "length (rb_contents r) \<noteq> 0" by simp
    with empty(2) show ?thesis unfolding rb_contents_length by simp
  next
    case (item t' r1)
    from Cons.prems(2) have "t' = t" "rb_contents r1 = map Some ts @ rest"
      unfolding item(4) by simp_all
    from Cons.IH [OF item(2) this(2)] obtain r' where
      r': "pop_all (length ts) r1 = Some (map Some ts, r')" "rb_inv r'" "rb_contents r' = rest"
      by blast
    have "pop_all (length (t # ts)) r = Some (map Some (t # ts), r')"
      using item(1) r'(1) \<open>t' = t\<close> by simp
    with r'(2,3) show ?thesis by blast
  qed
qed

lemma rb_inv_is_empty: "rb_inv r \<Longrightarrow> is_empty r \<longleftrightarrow> rb_contents r = []"
  using rb_inv_empty_size [of r] rb_inv_size_bounds(1) [of r]
  by (auto simp: is_empty_def rb_contents_def)

lemma init_capacity_least:
  assumes "1 \<le> N"
  shows "rb_capacity (RingBuffer_init N) = 2 ^ bit_length (N - 1)"
    "N \<le> 2 ^ bit_length (N - 1)" "\<And>j. N \<le> 2 ^ j \<Longrightarrow> bit_length (N - 1) \<le> j"
proof -
  show "rb_capacity (RingBuffer_init N) = 2 ^ bit_length (N - 1)"
    by (simp add: RingBuffer_init_def Let_def push_bit_eq_mult)
  have "nat (N - 1) < 2 ^ bit_length_nat (nat (N - 1))" by (rule bit_length_nat_upper)
  with assms have "N - 1 < int (2 ^ bit_length (N - 1))"
    by (simp only: bit_length_def) (simp add: nat_less_iff)
  then show "N \<le> 2 ^ bit_length (N - 1)" by simp
  fix j assume "N \<le> 2 ^ j"
  with assms have "nat (N - 1) < 2 ^ j" by (simp add: nat_less_iff)
  from bit_length_nat_least [OF this] assms show "bit_length (N - 1) \<le> j"
    by (simp add: bit_length_def)
qed

text \<open>
  Claim C5. For every requested capacity \<open>N \<ge> 1\<close> the buffer's capacity is the least
  power of two that is at least \<open>N\<close>. From any reachable empty buffer, after a run of
  pushes that all returned \<open>True\<close>, the same number of pops returns exactly the pushed
  ticks, one per pop and in push order, and leaves the buffer empty.
\<close>

theorem ring_capacity_and_drain:
  assumes "1 \<le> N"
  shows "(\<exists>k. rb_capacity (RingBuffer_init N) = 2 ^ k \<and> N \<le> 2 ^ k \<and>
              (\<forall>j. N \<le> 2 ^ j \<longrightarrow> k \<le> j)) \<and>
         (\<forall>r0 ts bs r1.
            rb_reachable N r0 \<and> is_empty r0 \<and> push_all ts r0 = Some (bs, r1) \<and> (\<forall>b\<in>set bs. b)
            \<longrightarrow> (\<exists>r2. pop_all (length ts) r1 = Some (map Some ts, r2) \<and> is_empty r2 \<and>
                      rb_size r2 = 0))"
proof (intro conjI allI impI)
  from init_capacity_least [OF assms]
  show "\<exists>k. rb_capacity (RingBuffer_init N) = 2 ^ k \<and> N \<le> 2 ^ k \<and> (\<forall>j. N \<le> 2 ^ j \<longrightarrow> k \<le> j)"
    by blast
next
  fix r0 ts bs r1
  assume h: "rb_reachable N r0 \<and> is_empty r0 \<and> push_all ts r0 = Some (bs, r1) \<and> (\<forall>b\<in>set bs. b)"
  then have inv0: "rb_inv r0" by (auto dest: rb_reachable_inv)
  with h have "rb_contents r0 = []" by (simp add: rb_inv_is_empty)
  with push_all_contents [OF inv0, of ts bs r1] h
  have inv1: "rb_inv r1" and c1: "rb_contents r1 = map Some ts @ []" by auto
  from pop_all_contents [OF inv1 c1] obtain r2 where
    r2: "pop_all (length ts) r1 = Some (map Some ts, r2)" "rb_inv r2" "rb_contents r2 = []"
    by blast
  then have "is_empty r2" by (simp add: rb_inv_is_empty)
  moreover from this r2(2) have "rb_size r2 = 0"
    by (simp add: rb_inv_empty_size is_empty_def)
  ultimately show "\<exists>r2. pop_all (length ts) r1 = Some (map Some ts, r2) \<and> is_empty r2 \<and>
                      rb_size r2 = 0"
    using r2(1) by blast
qed


lemma init_one: "RingBuffer_init 1 =
  \<lparr>rb_capacity = 1, rb_mask = 0, rb_buffer = [None], write_idx = 0, read_idx = 0\<rparr>"
  by (simp add: RingBuffer_init_def bit_length_def)

lemma push_init_one: "rb_push t (RingBuffer_init 1) = Some (False, RingBuffer_init 1)"
  by (simp add: init_one rb_push_def)

lemma pop_init_one: "rb_pop (RingBuffer_init 1) = Some (None, RingBuffer_init 1)"
  by (simp add: init_one rb_pop_def)

lemma reachable_one: "rb_reachable 1 r \<Longrightarrow> r = RingBuffer_init 1"
  by (induction rule: rb_reachable.induct) (simp_all add: push_init_one pop_init_one)

text \<open>
  Claim C9. A buffer of requested capacity 1 has one slot, and in every state it can
  reach push returns \<open>False\<close> and pop returns \<open>None\<close>. For every requested capacity, a
  reachable buffer holds at most \<open>capacity - 1\<close> ticks, and push accepts a tick exactly
  when fewer than \<open>capacity - 1\<close> are held.
\<close>

theorem ring_one_slot_unused:
  "(rb_reachable 1 r \<longrightarrow>
      rb_capacity r = 1 \<and> rb_push t r = Some (False, r) \<and> rb_pop r = Some (None, r) \<and>
      rb_contents r = []) \<and>
   (rb_reachable N r \<longrightarrow>
      0 \<le> rb_size r \<and> rb_size r \<le> rb_capacity r - 1 \<and>
      length (rb_contents r) = nat (rb_size r) \<and>
      (\<exists>b r'. rb_push t r = Some (b, r') \<and> (b \<longleftrightarrow> rb_size r < rb_capacity r - 1)))"
proof (intro conjI impI)
  assume "rb_reachable 1 r"
  then have r: "r = RingBuffer_init 1" by (rule reachable_one)
  show "rb_capacity r = 1" by (simp add: r init_one)
  show "rb_push t r = Some (False, r)" unfolding r by (rule push_init_one)
  show "rb_pop r = Some (None, r)" unfolding r by (rule pop_init_one)
  show "rb_contents r = []" by (simp add: r init_one rb_contents_def rb_size_def)
next
  assume "rb_reachable N r"
  then have inv: "rb_inv r" by (rule rb_reachable_inv)
  show "0 \<le> rb_size r" "rb_size r \<le> rb_capacity r - 1"
    by (rule rb_inv_size_bounds [OF inv])+
  show "length (rb_contents r) = nat (rb_size r)" by (rule rb_contents_length)
  show "\<exists>b r'. rb_push t r = Some (b, r') \<and> (b \<longleftrightarrow> rb_size r < rb_capacity r - 1)"
  proof (rule rb_push_cases [OF inv, of t])
    assume "rb_push t r = Some (False, r)" "rb_size r = rb_capacity r - 1"
    then have "rb_push t r = Some (False, r) \<and> (False \<longleftrightarrow> rb_size r < rb_capacity r - 1)"
      by simp
    then show ?thesis by blast
  next
    fix r1
    assume a: "rb_push t r = Some (True, r1)" "rb_inv r1" "rb_size r1 = rb_size r + 1"
      "rb_capacity r1 = rb_capacity r"
    from rb_inv_size_bounds(2) [OF a(2)] a(3,4) have "rb_size r < rb_capacity r - 1" by simp
    with a(1) have "rb_push t r = Some (True, r1) \<and> (True \<longleftrightarrow> rb_size r < rb_capacity r - 1)"
      by simp
    then show ?thesis by blast
  qed
qed

lemma bit_length_values: "bit_length 2 = 2" "bit_length 3 = 2"
  by code_simp+

lemma replicate_four: "replicate 4 x = [x, x, x, x]"
  by (simp add: numeral_eq_Suc)

lemma init_four: "RingBuffer_init 4 =
  \<lparr>rb_capacity = 4, rb_mask = 3, rb_buffer = [None, None, None, None], write_idx = 0, read_idx = 0\<rparr>"
  by (simp add: RingBuffer_init_def bit_length_values replicate_four)

lemma init_three: "RingBuffer_init 3 = RingBuffer_init 4"
  by (simp add: RingBuffer_init_def bit_length_values)

theorem ring_one_slot_unused_witness:
  "rb_reachable 1 (RingBuffer_init 1) \<and> rb_reachable 4 (RingBuffer_init 4) \<and>
   rb_push (trade_tick 1 ''ES'' 453225 1) (RingBuffer_init 1) = Some (False, RingBuffer_init 1) \<and>
   rb_pop (RingBuffer_init 1) = Some (None, RingBuffer_init 1) \<and>
   rb_size (RingBuffer_init 4) \<le> rb_capacity (RingBuffer_init 4) - 1"
proof -
  have r1: "rb_reachable 1 (RingBuffer_init 1)" by (rule rb_init)
  have r4: "rb_reachable 4 (RingBuffer_init 4)" by (rule rb_init)
  have one: "rb_reachable 1 (RingBuffer_init 1) \<longrightarrow>
      rb_capacity (RingBuffer_init 1) = 1 \<and>
      rb_push (trade_tick 1 ''ES'' 453225 1) (RingBuffer_init 1) = Some (False, RingBuffer_init 1) \<and>
      rb_pop (RingBuffer_init 1) = Some (None, RingBuffer_init 1) \<and>
      rb_contents (RingBuffer_init 1) = []"
    by (rule conjunct1 [OF ring_one_slot_unused])
  have four: "rb_reachable 4 (RingBuffer_init 4) \<longrightarrow>
      0 \<le> rb_size (RingBuffer_init 4) \<and>
      rb_size (RingBuffer_init 4) \<le> rb_capacity (RingBuffer_init 4) - 1 \<and>
      length (rb_contents (RingBuffer_init 4)) = nat (rb_size (RingBuffer_init 4)) \<and>
      (\<exists>b r'. rb_push (trade_tick 1 ''ES'' 453225 1) (RingBuffer_init 4) = Some (b, r') \<and>
         (b \<longleftrightarrow> rb_size (RingBuffer_init 4) < rb_capacity (RingBuffer_init 4) - 1))"
    by (rule conjunct2 [OF ring_one_slot_unused])
  from one r1 four r4 show ?thesis by blast
qed

theorem ring_capacity_and_drain_witness:
  "(1::int) \<le> 3 \<and> rb_capacity (RingBuffer_init 3) = 4 \<and>
   (\<exists>r2. pop_all 2 (snd (the (push_all [trade_tick 1 ''ES'' 453225 1, trade_tick 2 ''ES'' 453250 2]
                                 (RingBuffer_init 3))))
          = Some ([Some (trade_tick 1 ''ES'' 453225 1), Some (trade_tick 2 ''ES'' 453250 2)], r2) \<and>
         is_empty r2)"
proof -
  let ?ts = "[trade_tick 1 ''ES'' 453225 1, trade_tick 2 ''ES'' 453250 2]"
  let ?r1 = "\<lparr>rb_capacity = 4, rb_mask = 3,
      rb_buffer = [Some (trade_tick 1 ''ES'' 453225 1), Some (trade_tick 2 ''ES'' 453250 2), None, None],
      write_idx = 2, read_idx = 0\<rparr>"
  have p: "push_all ?ts (RingBuffer_init 3) = Some ([True, True], ?r1)"
    by (simp add: init_three init_four rb_push_def py_index_def)
  have e: "is_empty (RingBuffer_init 3)" by (simp add: init_three init_four is_empty_def)
  have h: "(1::int) \<le> 3" by simp
  have a: "\<forall>b\<in>set [True, True]. b" by simp
  from ring_capacity_and_drain [OF h]
  have "\<forall>r0 ts bs r1.
            rb_reachable 3 r0 \<and> is_empty r0 \<and> push_all ts r0 = Some (bs, r1) \<and> (\<forall>b\<in>set bs. b)
            \<longrightarrow> (\<exists>r2. pop_all (length ts) r1 = Some (map Some ts, r2) \<and> is_empty r2 \<and>
                      rb_size r2 = 0)"
    by (rule conjunct2)
  then have "rb_reachable 3 (RingBuffer_init 3) \<and> is_empty (RingBuffer_init 3) \<and>
       push_all ?ts (RingBuffer_init 3) = Some ([True, True], ?r1) \<and> (\<forall>b\<in>set [True, True]. b)
       \<longrightarrow> (\<exists>r2. pop_all (length ?ts) ?r1 = Some (map Some ?ts, r2) \<and> is_empty r2 \<and>
                      rb_size r2 = 0)"
    by (elim allE)
  with rb_init [of 3] e p a
  have "\<exists>r2. pop_all (length ?ts) ?r1 = Some (map Some ?ts, r2) \<and> is_empty r2 \<and> rb_size r2 = 0"
    by (elim impE) (intro conjI, assumption+)
  then obtain r2 where "pop_all (length ?ts) ?r1 = Some (map Some ?ts, r2)" "is_empty r2"
    by blast
  then have "pop_all 2 (snd (the (push_all ?ts (RingBuffer_init 3)))) =
      Some ([Some (trade_tick 1 ''ES'' 453225 1), Some (trade_tick 2 ''ES'' 453250 2)], r2) \<and> is_empty r2"
    unfolding p by (simp add: numeral_2_eq_2 del: pop_all.simps)
  then have "\<exists>r2. pop_all 2 (snd (the (push_all ?ts (RingBuffer_init 3)))) =
      Some ([Some (trade_tick 1 ''ES'' 453225 1), Some (trade_tick 2 ''ES'' 453250 2)], r2) \<and> is_empty r2"
    by (rule exI)
  moreover have "rb_capacity (RingBuffer_init 3) = 4" by (simp add: init_three init_four)
  ultimately show ?thesis using h by (intro conjI)
qed


section \<open>TickBuffer: the counters balance\<close>



lemma lost_ticks_simps [simp]:
  "lost_ticks (Done x) handed = 0" "lost_ticks Aborted None = 0"
  "lost_ticks Aborted (Some batch) = int (length batch)"
  by (simp_all add: lost_ticks_def)



lemma flush_end_counters [simp]:
  "ticks_processed (stats (flush_end now batch tb)) =
     ticks_processed (stats tb) + int (length batch)"
  "ticks_received (stats (flush_end now batch tb)) = ticks_received (stats tb)"
  "ticks_dropped (stats (flush_end now batch tb)) = ticks_dropped (stats tb)"
  by (simp_all add: flush_end_def)






lemma in_sink_simps [simp]:
  "in_sink [] = 0" "in_sink ((now, batch) # suspended) = int (length batch) + in_sink suspended"
  by (simp_all add: in_sink_def)






lemma tb_example_begin:
  "flush_begin ewma_int 9 tb_example_held =
   Some ([trade_tick 1 ''ES'' 453225 1], tb_example_lost)"
  by (simp add: flush_begin_def pop_batch_def rb_size_def rb_pop_def py_index_def trade_tick_def
      ewma_int_def Let_def tb_example_held_def tb_example_lost_def)


lemma tb_example_flush_returns:
  "tb_flush ewma_int 9 Returns tb_example_held =
   Some (Done (), Some [trade_tick 1 ''ES'' 453225 1], tb_example_flushed)"
  by (simp add: tb_flush_def tb_example_begin flush_end_def tb_example_lost_def
      tb_example_flushed_def)




section \<open>TickAggregator: late ticks and price selection\<close>

lemma process_tick_not_newer:
  assumes tf: "timeframe_ns ag \<noteq> 0"
    and cur: "bars ag (symbol t) = Some current_bar"
    and price: "tick_price t = Some price"
    and ts: "(timestamp_ns t div timeframe_ns ag) * timeframe_ns ag \<le> bar_timestamp_ns current_bar"
  shows "process_tick t ag =
           Inr (None, [],
                ag\<lparr>bars := (bars ag)(symbol t \<mapsto> update_bar current_bar price (tick_volume t))\<rparr>)"
  using assms by (simp add: process_tick_def get_bar_timestamp_def)

lemma spec_price_nonzero:
  "spec_price t = Some price \<Longrightarrow> price \<noteq> 0 \<Longrightarrow> tick_price t = Some price"
  by (auto simp: spec_price_def tick_price_def py_or_def py_truthy_def split: option.splits)

lemma tick_volume_spec: "tick_volume t = spec_volume t"
  by (simp add: tick_volume_def spec_volume_def py_or_def py_truthy_def split: option.splits)

text \<open>
  Claim C1, as amended. Take a tick whose first present price (trade, else bid, else
  ask) is not zero and whose bar timestamp is less than or equal to the current bar's
  timestamp for its symbol. \<open>process_tick\<close> merges it into the current bar: no bar is
  returned or passed to \<open>on_bar\<close>, the bars of other symbols are untouched, the bar keeps
  its timestamp, symbol, open and precision, and its high, low, close, volume and tick
  count are updated with the tick's price and trade size, whether the tick is late or
  belongs to the bar.
\<close>

theorem late_tick_merged_into_current_bar:
  assumes "bars ag (symbol t) = Some current_bar"
    and "spec_price t = Some price" and "price \<noteq> 0"
    and "get_bar_timestamp ag (timestamp_ns t) = Inr bar_ts"
    and "bar_ts \<le> bar_timestamp_ns current_bar"
  shows "\<exists>ag' b.
           process_tick t ag = Inr (None, [], ag') \<and> bars ag' (symbol t) = Some b \<and>
           (\<forall>s. s \<noteq> symbol t \<longrightarrow> bars ag' s = bars ag s) \<and>
           timeframe_ns ag' = timeframe_ns ag \<and> on_bar_set ag' = on_bar_set ag \<and>
           bar_timestamp_ns b = bar_timestamp_ns current_bar \<and>
           bar_symbol b = bar_symbol current_bar \<and>
           bar_precision b = bar_precision current_bar \<and>
           bar_open b = bar_open current_bar \<and>
           bar_high b = max (bar_high current_bar) price \<and>
           bar_low b = min (bar_low current_bar) price \<and>
           bar_close b = price \<and>
           bar_volume b = bar_volume current_bar + spec_volume t \<and>
           bar_tick_count b = bar_tick_count current_bar + 1"
proof -
  from assms(4) have tf: "timeframe_ns ag \<noteq> 0"
    by (auto simp: get_bar_timestamp_def split: if_splits)
  with assms(4) have "bar_ts = (timestamp_ns t div timeframe_ns ag) * timeframe_ns ag"
    by (simp add: get_bar_timestamp_def)
  with assms(5) have "(timestamp_ns t div timeframe_ns ag) * timeframe_ns ag
      \<le> bar_timestamp_ns current_bar" by simp
  from process_tick_not_newer [OF tf assms(1) spec_price_nonzero [OF assms(2,3)] this]
  show ?thesis by (simp add: update_bar_def tick_volume_spec)
qed


lemma late_example_reached:
  "process_tick (trade_tick 61000000000 ''ES'' 100 1) (TickAggregator_init 60 True) =
     Inr (None, [], late_example_ag)"
  by (simp add: process_tick_def get_bar_timestamp_def TickAggregator_init_def tick_price_def
      tick_volume_def py_or_def py_truthy_def trade_tick_def new_bar_def late_example_ag_def
      late_example_bar_def)

text \<open>
  Claim C1 fails as stated: with the bar of the second minute current, a tick of the
  first minute (bar timestamp 0) is merged into it and changes high, close, volume and
  tick count.
\<close>

theorem late_tick_not_ignored:
  "process_tick (trade_tick 61000000000 ''ES'' 100 1) (TickAggregator_init 60 True) =
     Inr (None, [], late_example_ag) \<and>
   get_bar_timestamp late_example_ag (timestamp_ns (trade_tick 1000000000 ''ES'' 200 5)) = Inr 0 \<and>
   bars late_example_ag ''ES'' = Some late_example_bar \<and>
   0 < bar_timestamp_ns late_example_bar \<and>
   process_tick (trade_tick 1000000000 ''ES'' 200 5) late_example_ag =
     Inr (None, [],
          late_example_ag\<lparr>bars := [''ES'' \<mapsto>
            late_example_bar\<lparr>bar_high := 200, bar_close := 200, bar_volume := 6,
                              bar_tick_count := 2\<rparr>]\<rparr>) \<and>
   late_example_bar\<lparr>bar_high := 200, bar_close := 200, bar_volume := 6, bar_tick_count := 2\<rparr>
     \<noteq> late_example_bar"
proof (intro conjI)
  show "process_tick (trade_tick 61000000000 ''ES'' 100 1) (TickAggregator_init 60 True) =
     Inr (None, [], late_example_ag)" by (rule late_example_reached)
  show "get_bar_timestamp late_example_ag (timestamp_ns (trade_tick 1000000000 ''ES'' 200 5)) = Inr 0"
    by (simp add: get_bar_timestamp_def late_example_ag_def trade_tick_def)
  show "bars late_example_ag ''ES'' = Some late_example_bar" by (simp add: late_example_ag_def)
  show "0 < bar_timestamp_ns late_example_bar" by (simp add: late_example_bar_def)
  show "process_tick (trade_tick 1000000000 ''ES'' 200 5) late_example_ag =
     Inr (None, [],
          late_example_ag\<lparr>bars := [''ES'' \<mapsto>
            late_example_bar\<lparr>bar_high := 200, bar_close := 200, bar_volume := 6,
                              bar_tick_count := 2\<rparr>]\<rparr>)"
    by (simp add: process_tick_def get_bar_timestamp_def tick_price_def
      tick_volume_def py_or_def py_truthy_def trade_tick_def update_bar_def late_example_ag_def
      late_example_bar_def)
  show "late_example_bar\<lparr>bar_high := 200, bar_close := 200, bar_volume := 6, bar_tick_count := 2\<rparr>
     \<noteq> late_example_bar" by (simp add: late_example_bar_def)
qed

theorem late_tick_merged_into_current_bar_witness:
  "bars late_example_ag (symbol (trade_tick 1000000000 ''ES'' 200 5)) = Some late_example_bar \<and>
   spec_price (trade_tick 1000000000 ''ES'' 200 5) = Some 200 \<and> (200::int) \<noteq> 0 \<and>
   get_bar_timestamp late_example_ag (timestamp_ns (trade_tick 1000000000 ''ES'' 200 5)) = Inr 0 \<and>
   0 \<le> bar_timestamp_ns late_example_bar \<and>
   (\<exists>ag' b. process_tick (trade_tick 1000000000 ''ES'' 200 5) late_example_ag = Inr (None, [], ag') \<and>
      bars ag' ''ES'' = Some b \<and> bar_high b = 200 \<and> bar_close b = 200 \<and> bar_open b = 100 \<and>
      bar_volume b = 6 \<and> bar_tick_count b = 2)"
proof -
  let ?t = "trade_tick 1000000000 ''ES'' 200 5"
  have h2: "bars late_example_ag (symbol ?t) = Some late_example_bar"
    by (simp add: late_example_ag_def trade_tick_def)
  have h3: "spec_price ?t = Some 200" by (simp add: spec_price_def trade_tick_def)
  have h3': "(200::int) \<noteq> 0" by simp
  have h4: "get_bar_timestamp late_example_ag (timestamp_ns ?t) = Inr 0"
    by (simp add: get_bar_timestamp_def late_example_ag_def trade_tick_def)
  have h5: "0 \<le> bar_timestamp_ns late_example_bar" by (simp add: late_example_bar_def)
  have v: "spec_volume ?t = 5" "symbol ?t = ''ES''"
    by (simp_all add: spec_volume_def trade_tick_def)
  from late_tick_merged_into_current_bar [OF h2 h3 h3' h4 h5] obtain ag' b where
    r: "process_tick ?t late_example_ag = Inr (None, [], ag')" "bars ag' (symbol ?t) = Some b"
      "bar_open b = bar_open late_example_bar"
      "bar_high b = max (bar_high late_example_bar) 200"
      "bar_close b = 200"
      "bar_volume b = bar_volume late_example_bar + spec_volume ?t"
      "bar_tick_count b = bar_tick_count late_example_bar + 1"
    by blast
  from r(2-7) have "bars ag' ''ES'' = Some b \<and> bar_high b = 200 \<and> bar_close b = 200 \<and>
      bar_open b = 100 \<and> bar_volume b = 6 \<and> bar_tick_count b = 2"
    unfolding v by (simp add: late_example_bar_def)
  with r(1) have "\<exists>ag' b. process_tick ?t late_example_ag = Inr (None, [], ag') \<and>
      bars ag' ''ES'' = Some b \<and> bar_high b = 200 \<and> bar_close b = 200 \<and> bar_open b = 100 \<and>
      bar_volume b = 6 \<and> bar_tick_count b = 2" by blast
  with h2 h3 h3' h4 h5 show ?thesis by (intro conjI)
qed

lemma tick_price_present_nonzero:
  "trade_price t = Some p \<Longrightarrow> p \<noteq> 0 \<Longrightarrow> tick_price t = Some p"
  "trade_price t = None \<Longrightarrow> bid_price t = Some p \<Longrightarrow> p \<noteq> 0 \<Longrightarrow> tick_price t = Some p"
  "trade_price t = None \<Longrightarrow> bid_price t = None \<Longrightarrow> tick_price t = ask_price t"
  by (simp_all add: tick_price_def py_or_def py_truthy_def)

lemma tick_volume_value:
  "tick_volume t = (case trade_size t of None \<Rightarrow> 0 | Some v \<Rightarrow> v)"
  by (simp add: tick_volume_def py_or_def py_truthy_def split: option.splits)

lemma process_tick_no_price:
  "timeframe_ns ag \<noteq> 0 \<Longrightarrow> tick_price t = None \<Longrightarrow> process_tick t ag = Inr (None, [], ag)"
  by (simp add: process_tick_def get_bar_timestamp_def)

text \<open>
  Claim C4, at the inputs where the code departs from it. A tick whose trade price is
  set to 0 and whose bid price is 453225 contributes the bid price, not the trade price;
  a tick whose only price is a trade price of 0 is dropped as if it had no price, while
  a tick whose trade price is 0 and whose ask price is 0 contributes the price 0.
\<close>

theorem zero_price_treated_as_absent:
  "tick_price (priced_tick 1 ''ES'' (Some 0) (Some 453225) None None) = Some 453225 \<and>
   process_tick (priced_tick 1 ''ES'' (Some 0) (Some 453225) None None) (TickAggregator_init 60 True) =
     Inr (None, [],
          (TickAggregator_init 60 True)\<lparr>bars := [''ES'' \<mapsto>
             \<lparr>bar_timestamp_ns = 0, bar_symbol = ''ES'', bar_open = 453225, bar_high = 453225,
              bar_low = 453225, bar_close = 453225, bar_volume = 0, bar_tick_count = 1,
              bar_precision = 2\<rparr>]\<rparr>) \<and>
   tick_price (priced_tick 1 ''ES'' (Some 0) None None None) = None \<and>
   process_tick (priced_tick 1 ''ES'' (Some 0) None None None) (TickAggregator_init 60 True) =
     Inr (None, [], TickAggregator_init 60 True) \<and>
   tick_price (priced_tick 1 ''ES'' (Some 0) None (Some 0) None) = Some 0"
  by (simp add: process_tick_def get_bar_timestamp_def TickAggregator_init_def tick_price_def
      tick_volume_def py_or_def py_truthy_def priced_tick_def new_bar_def)

section \<open>FeedHandler.start: reconnection and backoff\<close>

lemma stop_if_fields [simp]:
  "reconnect_delay (stop_if b h) = reconnect_delay h"
  "max_reconnect_delay (stop_if b h) = max_reconnect_delay h"
  "connected (stop_if b h) = connected h"
  "on_error_set (stop_if b h) = on_error_set h"
  "subscriptions (stop_if b h) = subscriptions h"
  "running (stop_if b h) = (running h \<and> \<not> b)"
  by (simp_all add: stop_if_def)

lemma read_loop_frame:
  "read_loop xs fin h = (e, h', acts) \<Longrightarrow>
   reconnect_delay h' = reconnect_delay h \<and> max_reconnect_delay h' = max_reconnect_delay h \<and>
   connected h' = connected h \<and> on_error_set h' = on_error_set h \<and>
   (running h' \<longrightarrow> running h) \<and>
   (\<forall>a \<in> set acts. \<exists>t. a = OnTick t)"
proof (induction xs arbitrary: h e h' acts)
  case Nil
  then show ?case by auto
next
  case (Cons x xs)
  obtain tick stopped res stopped2 where x: "x = (tick, stopped, res, stopped2)"
    by (cases x) auto
  show ?case
  proof (cases "running (stop_if stopped h)")
    case False
    with Cons.prems x show ?thesis by (auto simp: Let_def)
  next
    case True
    note run = this
    show ?thesis
    proof (cases res)
      case Returns
      obtain e1 h1 acts1 where r: "read_loop xs fin (stop_if stopped2 (stop_if stopped h)) = (e1, h1, acts1)"
        by (cases "read_loop xs fin (stop_if stopped2 (stop_if stopped h))") auto
      from Cons.prems x run Returns r have eq: "e = e1" "h' = h1" "acts = OnTick tick # acts1"
        by (simp_all add: Let_def)
      from Cons.IH [OF r] show ?thesis unfolding eq by auto
    next
      case Raises
      with Cons.prems x run show ?thesis by (auto simp: Let_def)
    next
      case Cancelled
      with Cons.prems x run show ?thesis by (auto simp: Let_def)
    qed
  qed
qed

lemma try_body_frame:
  assumes "try_body it h = (e, h', acts)"
  shows "max_reconnect_delay h' = max_reconnect_delay h" "on_error_set h' = on_error_set h"
    "running h' \<longrightarrow> running h"
    "\<forall>d. Sleep d \<notin> set acts" "OnError \<notin> set acts" "Disconnect \<notin> set acts"
    "\<exists>acts'. acts = Connect # acts'"
    "reconnect_delay h' = (if fst (connect_result it) = Returns then 1 else reconnect_delay h)"
    "e = Normal \<longrightarrow> fst (connect_result it) = Returns"
proof -
  let ?h1 = "stop_if (snd (connect_result it)) h"
  let ?h2 = "?h1\<lparr>connected := True, reconnect_delay := 1\<rparr>"
  let ?h3 = "stop_if (snd (subscribe_result it)) (?h2\<lparr>subscriptions := subscriptions ?h2 @ subscriptions ?h2\<rparr>)"
  have all: "max_reconnect_delay h' = max_reconnect_delay h \<and> on_error_set h' = on_error_set h \<and>
    (running h' \<longrightarrow> running h) \<and>
    (\<forall>d. Sleep d \<notin> set acts) \<and> OnError \<notin> set acts \<and> Disconnect \<notin> set acts \<and>
    (\<exists>acts'. acts = Connect # acts') \<and>
    reconnect_delay h' = (if fst (connect_result it) = Returns then 1 else reconnect_delay h) \<and>
    (e = Normal \<longrightarrow> fst (connect_result it) = Returns)"
  proof (cases "fst (connect_result it)")
    case Raises
    with assms show ?thesis by (auto simp: try_body_def Let_def)
  next
    case Cancelled
    with assms show ?thesis by (auto simp: try_body_def Let_def)
  next
    case Returns
    note conn = this
    show ?thesis
    proof (cases "subscriptions ?h2 \<noteq> []")
      case False
      obtain e1 h4 acts1 where r: "read_loop (stream it) (stream_end it) ?h2 = (e1, h4, acts1)"
        by (cases "read_loop (stream it) (stream_end it) ?h2") auto
      from assms conn False r have eq: "e = e1" "h' = h4" "acts = Connect # acts1"
        by (simp_all add: try_body_def Let_def)
      from read_loop_frame [OF r] conn show ?thesis unfolding eq by auto
    next
      case True
      note subs = this
      show ?thesis
      proof (cases "fst (subscribe_result it)")
        case Raises
        with assms conn subs show ?thesis by (auto simp: try_body_def Let_def)
      next
        case Cancelled
        with assms conn subs show ?thesis by (auto simp: try_body_def Let_def)
      next
        case Returns
        obtain e1 h4 acts1 where r: "read_loop (stream it) (stream_end it) ?h3 = (e1, h4, acts1)"
          by (cases "read_loop (stream it) (stream_end it) ?h3") auto
        from assms conn subs Returns r have eq: "e = e1" "h' = h4"
          "acts = Connect # Subscribe (subscriptions ?h2) # acts1"
          by (simp_all add: try_body_def Let_def)
        from read_loop_frame [OF r] conn show ?thesis unfolding eq by auto
      qed
    qed
  qed
  from all show "max_reconnect_delay h' = max_reconnect_delay h" "on_error_set h' = on_error_set h"
    "running h' \<longrightarrow> running h"
    "\<forall>d. Sleep d \<notin> set acts" "OnError \<notin> set acts" "Disconnect \<notin> set acts"
    "\<exists>acts'. acts = Connect # acts'"
    "reconnect_delay h' = (if fst (connect_result it) = Returns then 1 else reconnect_delay h)"
    "e = Normal \<longrightarrow> fst (connect_result it) = Returns"
    by blast+
qed

lemma except_block_cases:
  fixes h1 :: "'a FeedHandler_scheme"
  defines "on_error_ok \<equiv> \<lambda>it. on_error_set h1 \<longrightarrow> fst (on_error_result it) = Returns"
  defines "still_running \<equiv> \<lambda>it. running h1 \<and> \<not> (on_error_set h1 \<and> snd (on_error_result it))"
  assumes eb: "except_block it h1 = (escaped, h2, acts2)"
  shows "\<not> connected h2"
    "acts2 = (if on_error_set h1 then [OnError] else []) @
             (if on_error_ok it \<and> still_running it then [Sleep (reconnect_delay h1)] else [])"
    "escaped \<longleftrightarrow> \<not> on_error_ok it \<or> (still_running it \<and> fst (sleep_result it) \<noteq> Returns)"
    "reconnect_delay h2 =
       (if on_error_ok it \<and> still_running it \<and> fst (sleep_result it) = Returns
        then min (reconnect_delay h1 * 2) (max_reconnect_delay h1) else reconnect_delay h1)"
    "max_reconnect_delay h2 = max_reconnect_delay h1" "on_error_set h2 = on_error_set h1"
    "running h2 \<longrightarrow> running h1"
  using eb unfolding on_error_ok_def still_running_def
  by (auto simp: except_block_def Let_def split: if_splits)

lemma loop_body_starts_with_connect:
  "loop_body it h = (x, h', acts) \<Longrightarrow> \<exists>acts'. acts = Connect # acts'"
proof -
  assume lb: "loop_body it h = (x, h', acts)"
  obtain e h1 acts1 where tb: "try_body it h = (e, h1, acts1)"
    by (cases "try_body it h") auto
  from try_body_frame(7) [OF tb] obtain a where a: "acts1 = Connect # a" by blast
  obtain esc h2 acts2 where eb: "except_block it h1 = (esc, h2, acts2)"
    by (cases "except_block it h1") auto
  from lb tb eb a show ?thesis by (cases e) (auto simp: loop_body_def)
qed

lemma supervise_starts_with_connect:
  assumes "running h"
  shows "\<exists>r h' acts'. supervise (it # rest) dr h = (r, h', Connect # acts')"
proof -
  obtain x h1 acts1 where lb: "loop_body it h = (x, h1, acts1)"
    by (cases "loop_body it h") auto
  from loop_body_starts_with_connect [OF lb] obtain a where a: "acts1 = Connect # a" by blast
  obtain r h2 acts2 where s: "supervise rest dr h1 = (r, h2, acts2)"
    by (cases "supervise rest dr h1") auto
  obtain r' h3 acts3 where l: "leave_loop dr h1 = (r', h3, acts3)"
    by (cases "leave_loop dr h1") auto
  from assms lb a s l show ?thesis by (cases x) auto
qed

lemma loop_body_sleep_only_after_exception:
  assumes lb: "loop_body it h = (x, h2, acts2)" and sl: "Sleep d \<in> set acts2"
  shows "fst (try_body it h) = Exn"
proof -
  obtain e h1 acts1 where tb: "try_body it h = (e, h1, acts1)"
    by (cases "try_body it h") auto
  from try_body_frame(4) [OF tb] have no: "Sleep d \<notin> set acts1" by blast
  from lb tb no sl show ?thesis by (cases e) (auto simp: loop_body_def)
qed

lemma backoff_double: "min (min (2 ^ i) 60 * 2) (60::int) = min (2 ^ Suc i) 60"
  by (auto simp: min_def)

lemma loop_body_failing_connect:
  fixes h :: "'a FeedHandler_scheme"
  assumes "running h"
  shows "loop_body failing_connect h =
     (Continue,
      h\<lparr>connected := False,
        reconnect_delay := min (reconnect_delay h * 2) (max_reconnect_delay h)\<rparr>,
      Connect # (if on_error_set h then [OnError] else []) @ [Sleep (reconnect_delay h)])"
  using assms
  by (simp add: loop_body_def try_body_def except_block_def failing_connect_def stop_if_def Let_def)

lemma supervise_failing_connects:
  fixes h :: "'a FeedHandler_scheme"
  assumes "running h" "\<not> connected h" "reconnect_delay h = min (2 ^ i) 60"
    "max_reconnect_delay h = 60"
  shows "supervise (replicate k failing_connect) dr h =
     (Pending, h\<lparr>reconnect_delay := min (2 ^ (i + k)) 60\<rparr>,
      concat (map (\<lambda>j. Connect # (if on_error_set h then [OnError] else []) @
                          [Sleep (min (2 ^ j) 60)]) [i ..< i + k]))"
  using assms
proof (induction k arbitrary: h i)
  case 0
  have "h\<lparr>reconnect_delay := reconnect_delay h\<rparr> = h" by simp
  with 0 show ?case by simp
next
  case (Suc k)
  let ?h1 = "h\<lparr>connected := False,
        reconnect_delay := min (reconnect_delay h * 2) (max_reconnect_delay h)\<rparr>"
  have d1: "reconnect_delay ?h1 = min (2 ^ Suc i) 60"
    using Suc.prems(3,4) by (simp add: backoff_double)
  have ih: "supervise (replicate k failing_connect) dr ?h1 =
     (Pending, ?h1\<lparr>reconnect_delay := min (2 ^ (Suc i + k)) 60\<rparr>,
      concat (map (\<lambda>j. Connect # (if on_error_set ?h1 then [OnError] else []) @
                          [Sleep (min (2 ^ j) 60)]) [Suc i ..< Suc i + k]))"
    using Suc.prems by (intro Suc.IH) (simp_all add: backoff_double)
  have same: "h\<lparr>connected := False\<rparr> = h"
  proof -
    have "h\<lparr>connected := connected h\<rparr> = h" by simp
    with Suc.prems(2) show ?thesis by simp
  qed
  have st: "?h1\<lparr>reconnect_delay := min (2 ^ (Suc i + k)) 60\<rparr> =
            h\<lparr>reconnect_delay := min (2 ^ (i + Suc k)) 60\<rparr>"
  proof -
    have "?h1\<lparr>reconnect_delay := min (2 ^ (Suc i + k)) 60\<rparr> =
          (h\<lparr>connected := False\<rparr>)\<lparr>reconnect_delay := min (2 ^ (i + Suc k)) 60\<rparr>"
      by simp
    then show ?thesis unfolding same .
  qed
  have up: "[i ..< i + Suc k] = i # [Suc i ..< Suc i + k]"
    by (simp add: upt_conv_Cons)
  let ?A = "Connect # (if on_error_set h then [OnError] else []) @ [Sleep (reconnect_delay h)]"
  have "supervise (replicate (Suc k) failing_connect) dr h =
        (case supervise (replicate k failing_connect) dr ?h1 of
           (r, h'', acts') \<Rightarrow> (r, h'', ?A @ acts'))"
    unfolding replicate_Suc supervise.simps loop_body_failing_connect [OF Suc.prems(1)]
    using Suc.prems(1) by simp
  also have "\<dots> = (Pending, ?h1\<lparr>reconnect_delay := min (2 ^ (Suc i + k)) 60\<rparr>,
      ?A @ concat (map (\<lambda>j. Connect # (if on_error_set ?h1 then [OnError] else []) @
                          [Sleep (min (2 ^ j) 60)]) [Suc i ..< Suc i + k]))"
    unfolding ih by simp
  also have "\<dots> = (Pending, h\<lparr>reconnect_delay := min (2 ^ (i + Suc k)) 60\<rparr>,
      concat (map (\<lambda>j. Connect # (if on_error_set h then [OnError] else []) @
                          [Sleep (min (2 ^ j) 60)]) [i ..< i + Suc k]))"
    unfolding st up by (simp add: Suc.prems(3) del: upt_Suc)
  finally show ?case .
qed

text \<open>
  Claim C8 fails as stated: when \<open>stop()\<close> is called while a \<open>connect\<close> that then raises
  is awaited, the handler is marked disconnected and \<open>on_error\<close> is invoked, but the
  loop does not sleep and the delay stays at 1.
\<close>

theorem failure_without_sleep:
  "start [failing_connect_stopped] Returns (FeedHandler_init DATABENTO True) =
     (Finished, FeedHandler_init DATABENTO True, [Connect, OnError, Disconnect]) \<and>
   fst (connect_result failing_connect_stopped) = Raises \<and>
   Sleep 1 \<notin> set [Connect, OnError, Disconnect] \<and>
   reconnect_delay (FeedHandler_init DATABENTO True) = 1"
  by (simp add: start_def loop_body_def try_body_def except_block_def leave_loop_def
      failing_connect_stopped_def failing_connect_def stop_if_def FeedHandler_init_def)

lemma except_block_exact:
  assumes eb: "except_block it h1 = (escaped, h2, acts2)"
  shows "\<not> connected h2"
    "acts2 = (if on_error_set h1 then [OnError] else []) @
             (if sleeps it h1 then [Sleep (reconnect_delay h1)] else [])"
    "escaped \<longleftrightarrow> on_error_fails it h1 \<or> (sleeps it h1 \<and> fst (sleep_result it) \<noteq> Returns)"
    "reconnect_delay h2 =
       (if sleeps it h1 \<and> fst (sleep_result it) = Returns
        then min (reconnect_delay h1 * 2) (max_reconnect_delay h1) else reconnect_delay h1)"
    "running h2 \<longleftrightarrow> running_at_guard it h1 \<and> \<not> (sleeps it h1 \<and> snd (sleep_result it))"
  using eb unfolding sleeps_def on_error_fails_def running_at_guard_def
  by (auto simp: except_block_def Let_def split: if_splits)

text \<open>
  Claim C8, as amended. When the \<open>try\<close> block of an iteration ends with an exception
  other than a cancellation, the handler is marked disconnected and \<open>on_error\<close> is invoked
  when set. The loop then sleeps exactly when \<open>on_error\<close> has returned (or is not set)
  and \<open>stop()\<close> has not been called by the time \<open>on_error\<close> is over; it sleeps for the
  current \<open>reconnect_delay\<close>, and the delay is doubled with a cap of
  \<open>max_reconnect_delay\<close> exactly when that sleep returns. If \<open>stop()\<close> was called before
  or while \<open>on_error\<close> ran, there is no sleep and the delay is unchanged. A \<open>connect\<close> that
  returns resets the delay to 1. From a new handler, \<open>k\<close> connects that raise in a row are
  followed by sleeps of \<open>min (2 ^ j) 60\<close> seconds for \<open>j = 0, \<dots>, k - 1\<close>:
  1, 2, 4, 8, 16, 32, 60, 60, \<dots>
\<close>

theorem failure_backoff:
  fixes h :: "'a FeedHandler_scheme"
  shows
  "(try_body it h = (Exn, h1, acts) \<longrightarrow>
      (\<exists>escaped h2 acts2.
         loop_body it h = (if escaped then Escape else Continue, h2, acts @ acts2) \<and>
         \<not> connected h2 \<and>
         acts2 = (if on_error_set h then [OnError] else []) @
                 (if sleeps it h1 then [Sleep (reconnect_delay h1)] else []) \<and>
         (escaped \<longleftrightarrow>
            on_error_fails it h1 \<or> (sleeps it h1 \<and> fst (sleep_result it) \<noteq> Returns)) \<and>
         reconnect_delay h2 =
           (if sleeps it h1 \<and> fst (sleep_result it) = Returns
            then min (reconnect_delay h1 * 2) (max_reconnect_delay h) else reconnect_delay h1) \<and>
         (running h2 \<longleftrightarrow>
            running_at_guard it h1 \<and> \<not> (sleeps it h1 \<and> snd (sleep_result it))))) \<and>
   (try_body it h = (e, h', acts') \<and> fst (connect_result it) = Returns \<longrightarrow>
      reconnect_delay h' = 1) \<and>
   start (replicate k failing_connect) dr (FeedHandler_init v has_on_error) =
     (Pending,
      (FeedHandler_init v has_on_error)\<lparr>running := True, reconnect_delay := min (2 ^ k) 60\<rparr>,
      concat (map (\<lambda>j. Connect # (if has_on_error then [OnError] else []) @
                          [Sleep (min (2 ^ j) 60)]) [0 ..< k]))"
proof (intro conjI impI)
  assume tb: "try_body it h = (Exn, h1, acts)"
  obtain escaped h2 acts2 where eb: "except_block it h1 = (escaped, h2, acts2)"
    by (cases "except_block it h1") auto
  note c = except_block_exact [OF eb]
  note f = try_body_frame [OF tb]
  have lb: "loop_body it h = (if escaped then Escape else Continue, h2, acts @ acts2)"
    using tb eb by (simp add: loop_body_def)
  have 2: "acts2 = (if on_error_set h then [OnError] else []) @
                 (if sleeps it h1 then [Sleep (reconnect_delay h1)] else [])"
    using c(2) f(2) by simp
  have 4: "reconnect_delay h2 =
           (if sleeps it h1 \<and> fst (sleep_result it) = Returns
            then min (reconnect_delay h1 * 2) (max_reconnect_delay h) else reconnect_delay h1)"
    using c(4) f(1) by simp
  from lb c(1) 2 c(3) 4 c(5)
  show "\<exists>escaped h2 acts2.
         loop_body it h = (if escaped then Escape else Continue, h2, acts @ acts2) \<and>
         \<not> connected h2 \<and>
         acts2 = (if on_error_set h then [OnError] else []) @
                 (if sleeps it h1 then [Sleep (reconnect_delay h1)] else []) \<and>
         (escaped \<longleftrightarrow>
            on_error_fails it h1 \<or> (sleeps it h1 \<and> fst (sleep_result it) \<noteq> Returns)) \<and>
         reconnect_delay h2 =
           (if sleeps it h1 \<and> fst (sleep_result it) = Returns
            then min (reconnect_delay h1 * 2) (max_reconnect_delay h) else reconnect_delay h1) \<and>
         (running h2 \<longleftrightarrow>
            running_at_guard it h1 \<and> \<not> (sleeps it h1 \<and> snd (sleep_result it)))"
    by blast
next
  assume "try_body it h = (e, h', acts') \<and> fst (connect_result it) = Returns"
  then show "reconnect_delay h' = 1" using try_body_frame(8) [of it h e h' acts'] by simp
next
  let ?h = "(FeedHandler_init v has_on_error)\<lparr>running := True\<rparr>"
  have "supervise (replicate k failing_connect) dr ?h =
     (Pending, ?h\<lparr>reconnect_delay := min (2 ^ (0 + k)) 60\<rparr>,
      concat (map (\<lambda>j. Connect # (if on_error_set ?h then [OnError] else []) @
                          [Sleep (min (2 ^ j) 60)]) [0 ..< 0 + k]))"
    by (rule supervise_failing_connects) (simp_all add: FeedHandler_init_def)
  then show "start (replicate k failing_connect) dr (FeedHandler_init v has_on_error) =
     (Pending,
      (FeedHandler_init v has_on_error)\<lparr>running := True, reconnect_delay := min (2 ^ k) 60\<rparr>,
      concat (map (\<lambda>j. Connect # (if has_on_error then [OnError] else []) @
                          [Sleep (min (2 ^ j) 60)]) [0 ..< k]))"
    by (simp add: start_def FeedHandler_init_def)
qed

theorem failure_backoff_witness:
  "try_body failing_stream ((FeedHandler_init DATABENTO True)\<lparr>running := True\<rparr>) =
     (Exn, (FeedHandler_init DATABENTO True)\<lparr>running := True, connected := True\<rparr>, [Connect]) \<and>
   fst (connect_result failing_stream) = Returns \<and>
   loop_body failing_stream ((FeedHandler_init DATABENTO True)\<lparr>running := True\<rparr>) =
     (Continue, (FeedHandler_init DATABENTO True)\<lparr>running := True, reconnect_delay := 2\<rparr>,
      [Connect, OnError, Sleep 1]) \<and>
   try_body failing_stream_stopped_in_on_error
       ((FeedHandler_init DATABENTO True)\<lparr>running := True\<rparr>) =
     (Exn, (FeedHandler_init DATABENTO True)\<lparr>running := True, connected := True\<rparr>, [Connect]) \<and>
   loop_body failing_stream_stopped_in_on_error
       ((FeedHandler_init DATABENTO True)\<lparr>running := True\<rparr>) =
     (Continue, FeedHandler_init DATABENTO True, [Connect, OnError]) \<and>
   start (replicate 3 failing_connect) Returns (FeedHandler_init DATABENTO True) =
     (Pending, (FeedHandler_init DATABENTO True)\<lparr>running := True, reconnect_delay := 8\<rparr>,
      [Connect, OnError, Sleep 1, Connect, OnError, Sleep 2, Connect, OnError, Sleep 4])"
proof -
  let ?h = "(FeedHandler_init DATABENTO True)\<lparr>running := True\<rparr>"
  let ?h1 = "(FeedHandler_init DATABENTO True)\<lparr>running := True, connected := True\<rparr>"
  have tb: "try_body failing_stream ?h = (Exn, ?h1, [Connect])"
    by (simp add: try_body_def failing_stream_def stop_if_def FeedHandler_init_def exit_of_def)
  have tbs: "try_body failing_stream_stopped_in_on_error ?h = (Exn, ?h1, [Connect])"
    by (simp add: try_body_def failing_stream_stopped_in_on_error_def failing_stream_def
        stop_if_def FeedHandler_init_def exit_of_def)
  have cr: "fst (connect_result failing_stream) = Returns" by (simp add: failing_stream_def)
  have sl: "sleeps failing_stream ?h1" "fst (sleep_result failing_stream) = Returns"
    "\<not> snd (sleep_result failing_stream)" "\<not> on_error_fails failing_stream ?h1"
    "running_at_guard failing_stream ?h1"
    by (simp_all add: sleeps_def on_error_fails_def running_at_guard_def failing_stream_def
        FeedHandler_init_def)
  have ns: "\<not> sleeps failing_stream_stopped_in_on_error ?h1"
    "\<not> on_error_fails failing_stream_stopped_in_on_error ?h1"
    "\<not> running_at_guard failing_stream_stopped_in_on_error ?h1"
    by (simp_all add: sleeps_def on_error_fails_def running_at_guard_def
        failing_stream_stopped_in_on_error_def failing_stream_def FeedHandler_init_def)
  note fb = failure_backoff [of failing_stream ?h ?h1 "[Connect]" Exn ?h1 "[Connect]" 3 Returns
      DATABENTO True]
  from fb tb obtain escaped h2 acts2 where
    r: "loop_body failing_stream ?h = (if escaped then Escape else Continue, h2, [Connect] @ acts2)"
      "acts2 = (if on_error_set ?h then [OnError] else []) @
               (if sleeps failing_stream ?h1 then [Sleep (reconnect_delay ?h1)] else [])"
      "escaped \<longleftrightarrow> on_error_fails failing_stream ?h1 \<or>
         (sleeps failing_stream ?h1 \<and> fst (sleep_result failing_stream) \<noteq> Returns)"
    by blast
  from r(2,3) sl have "acts2 = [OnError, Sleep 1]" "\<not> escaped"
    by (simp_all add: FeedHandler_init_def)
  with r(1) have acts: "snd (snd (loop_body failing_stream ?h)) = [Connect, OnError, Sleep 1]"
    "fst (loop_body failing_stream ?h) = Continue" by simp_all
  have lb: "loop_body failing_stream ?h =
     (Continue, (FeedHandler_init DATABENTO True)\<lparr>running := True, reconnect_delay := 2\<rparr>,
      [Connect, OnError, Sleep 1])"
    unfolding loop_body_def tb
    by (simp add: except_block_def failing_stream_def stop_if_def FeedHandler_init_def)
  note fbs = failure_backoff [of failing_stream_stopped_in_on_error ?h ?h1 "[Connect]" Exn ?h1
      "[Connect]" 3 Returns DATABENTO True]
  from fbs tbs obtain escaped' h2' acts2' where
    r': "loop_body failing_stream_stopped_in_on_error ?h =
           (if escaped' then Escape else Continue, h2', [Connect] @ acts2')"
      "acts2' = (if on_error_set ?h then [OnError] else []) @
               (if sleeps failing_stream_stopped_in_on_error ?h1
                then [Sleep (reconnect_delay ?h1)] else [])"
    by blast
  from r'(2) ns have "acts2' = [OnError]" by (simp add: FeedHandler_init_def)
  have lbs: "loop_body failing_stream_stopped_in_on_error ?h =
     (Continue, FeedHandler_init DATABENTO True, [Connect, OnError])"
    unfolding loop_body_def tbs
    by (simp add: except_block_def failing_stream_stopped_in_on_error_def failing_stream_def
        stop_if_def FeedHandler_init_def)
  from fb have "start (replicate 3 failing_connect) Returns (FeedHandler_init DATABENTO True) =
     (Pending,
      (FeedHandler_init DATABENTO True)\<lparr>running := True, reconnect_delay := min (2 ^ 3) 60\<rparr>,
      concat (map (\<lambda>j. Connect # (if True then [OnError] else []) @
                          [Sleep (min (2 ^ j) 60)]) [0 ..< 3]))"
    by blast
  then have st: "start (replicate 3 failing_connect) Returns (FeedHandler_init DATABENTO True) =
     (Pending, (FeedHandler_init DATABENTO True)\<lparr>running := True, reconnect_delay := 8\<rparr>,
      [Connect, OnError, Sleep 1, Connect, OnError, Sleep 2, Connect, OnError, Sleep 4])"
    by (simp add: upt_conv_Cons del: replicate.simps)
  from tb cr lb tbs lbs st show ?thesis by (intro conjI)
qed

text \<open>
  Claim C10. If the \<open>try\<close> block of an iteration ends without an exception while the
  handler is still running (the stream ended normally), the iteration contains no
  sleep, the delay is the 1 that the successful connect set, and the next action of the
  loop is the next \<open>connect\<close>. A sleep occurs only in an iteration whose \<open>try\<close> block
  raised an exception other than a cancellation.
\<close>

theorem normal_end_reconnects_at_once:
  fixes h :: "'a FeedHandler_scheme"
  shows
  "(running h \<and> try_body it h = (Normal, h', acts) \<and> running h' \<longrightarrow>
      (\<forall>d. Sleep d \<notin> set acts) \<and> reconnect_delay h' = 1 \<and>
      loop_body it h = (Continue, h', acts) \<and>
      (\<exists>r h'' acts'.
         supervise (it2 # rest) dr h' = (r, h'', Connect # acts') \<and>
         supervise (it # it2 # rest) dr h = (r, h'', acts @ Connect # acts'))) \<and>
   (loop_body it h = (x, h2, acts2) \<and> Sleep d \<in> set acts2 \<longrightarrow> fst (try_body it h) = Exn)"
proof (intro conjI impI)
  assume a: "running h \<and> try_body it h = (Normal, h', acts) \<and> running h'"
  then have tb: "try_body it h = (Normal, h', acts)" by simp
  show "\<forall>d. Sleep d \<notin> set acts" by (rule try_body_frame(4) [OF tb])
  from try_body_frame(8,9) [OF tb] show "reconnect_delay h' = 1" by simp
  show lb: "loop_body it h = (Continue, h', acts)" using tb by (simp add: loop_body_def)
  from a have "running h'" by simp
  from supervise_starts_with_connect [OF this, of it2 rest dr] obtain r h'' acts' where
    s: "supervise (it2 # rest) dr h' = (r, h'', Connect # acts')" by blast
  have "supervise (it # it2 # rest) dr h = (r, h'', acts @ Connect # acts')"
    using a lb s by (simp del: supervise.simps add: supervise.simps(2) [of it "it2 # rest"])
  with s show "\<exists>r h'' acts'.
         supervise (it2 # rest) dr h' = (r, h'', Connect # acts') \<and>
         supervise (it # it2 # rest) dr h = (r, h'', acts @ Connect # acts')" by blast
next
  assume "loop_body it h = (x, h2, acts2) \<and> Sleep d \<in> set acts2"
  then show "fst (try_body it h) = Exn"
    using loop_body_sleep_only_after_exception [of it h x h2 acts2 d] by simp
qed

theorem normal_end_reconnects_at_once_witness:
  "running ((FeedHandler_init DATABENTO True)\<lparr>running := True\<rparr>) \<and>
   try_body ending_stream ((FeedHandler_init DATABENTO True)\<lparr>running := True\<rparr>) =
     (Normal, (FeedHandler_init DATABENTO True)\<lparr>running := True, connected := True\<rparr>, [Connect]) \<and>
   (\<exists>r h'' acts'.
      supervise [ending_stream, failing_stream] Returns
        ((FeedHandler_init DATABENTO True)\<lparr>running := True\<rparr>) =
      (r, h'', [Connect] @ Connect # acts')) \<and>
   loop_body failing_stream ((FeedHandler_init DATABENTO True)\<lparr>running := True\<rparr>) =
     (Continue, (FeedHandler_init DATABENTO True)\<lparr>running := True, reconnect_delay := 2\<rparr>,
      [Connect, OnError, Sleep 1]) \<and>
   fst (try_body failing_stream ((FeedHandler_init DATABENTO True)\<lparr>running := True\<rparr>)) = Exn"
proof -
  let ?h = "(FeedHandler_init DATABENTO True)\<lparr>running := True\<rparr>"
  let ?h1 = "(FeedHandler_init DATABENTO True)\<lparr>running := True, connected := True\<rparr>"
  let ?h2 = "(FeedHandler_init DATABENTO True)\<lparr>running := True, reconnect_delay := 2\<rparr>"
  have run: "running ?h" "running ?h1" by simp_all
  have tb: "try_body ending_stream ?h = (Normal, ?h1, [Connect])"
    by (simp add: try_body_def ending_stream_def stop_if_def FeedHandler_init_def exit_of_def)
  have tbf: "try_body failing_stream ?h = (Exn, ?h1, [Connect])"
    by (simp add: try_body_def failing_stream_def stop_if_def FeedHandler_init_def exit_of_def)
  have lb: "loop_body failing_stream ?h = (Continue, ?h2, [Connect, OnError, Sleep 1])"
    unfolding loop_body_def tbf
    by (simp add: except_block_def failing_stream_def stop_if_def FeedHandler_init_def)
  have sl: "Sleep 1 \<in> set [Connect, OnError, Sleep 1]" by simp
  note n1 = normal_end_reconnects_at_once [of ?h ending_stream ?h1 "[Connect]" failing_stream
      "[]" Returns]
  from n1 run tb have
    "\<exists>r h'' acts'.
         supervise [failing_stream] Returns ?h1 = (r, h'', Connect # acts') \<and>
         supervise [ending_stream, failing_stream] Returns ?h = (r, h'', [Connect] @ Connect # acts')"
    by blast
  then have 1: "\<exists>r h'' acts'.
      supervise [ending_stream, failing_stream] Returns ?h = (r, h'', [Connect] @ Connect # acts')"
    by blast
  from normal_end_reconnects_at_once [of ?h failing_stream ?h1 "[Connect]" failing_stream
      "[]" Returns Continue ?h2 "[Connect, OnError, Sleep 1]" 1] lb sl
  have 2: "fst (try_body failing_stream ?h) = Exn" by blast
  from run(1) tb 1 lb 2 show ?thesis by (intro conjI)
qed


section \<open>CMEHandler: sequence gaps\<close>

lemma parse_packet_state:
  assumes "12 \<le> length p"
  shows "snd (parse_packet p h) =
     h\<lparr>gaps := (if 0 < expected_seq h \<and> expected_seq h < packet_seq p
                 then gaps h @ [(expected_seq h, packet_seq p - 1)] else gaps h),
       expected_seq := packet_seq p + 1\<rparr>"
  using assms by (auto simp: parse_packet_def Let_def)

lemma parse_packet_short: "length p < 12 \<Longrightarrow> parse_packet p h = ([], h)"
  by (simp add: parse_packet_def)

lemma parse_packets_state:
  "snd (parse_packets (p # ps) h) = snd (parse_packets ps (snd (parse_packet p h)))"
  by (simp split: prod.splits)

lemma example_packet_facts:
  "length (example_packet 100) = 42" "length (example_packet 101) = 42"
  "length (example_packet 105) = 42"
  "packet_seq (example_packet 100) = 100" "packet_seq (example_packet 101) = 101"
  "packet_seq (example_packet 105) = 105"
  by code_simp+

text \<open>
  Claim C3 fails as stated: the first packet a handler receives has a sequence number
  above \<open>expected_seq\<close>, which is 0 then, and records no gap.
\<close>

theorem first_packet_records_no_gap:
  "expected_seq (CMEHandler_init True) = 0 \<and>
   12 \<le> length (example_packet 100) \<and>
   packet_seq (example_packet 100) = 100 \<and>
   gaps (snd (parse_packet (example_packet 100) (CMEHandler_init True))) = [] \<and>
   expected_seq (snd (parse_packet (example_packet 100) (CMEHandler_init True))) = 101"
proof -
  have l: "12 \<le> length (example_packet 100)" by (simp add: example_packet_facts)
  show ?thesis
    unfolding parse_packet_state [OF l]
    by (simp add: example_packet_facts CMEHandler_init_def)
qed

text \<open>
  Claim C3, as amended. A packet of at least 12 bytes sets \<open>expected_seq\<close> to its
  sequence number plus one, and records the gap \<open>(expected_seq, seq - 1)\<close> exactly when
  \<open>expected_seq\<close> is positive and the sequence number exceeds it; the first packet of a
  handler, received with \<open>expected_seq = 0\<close>, records none. Packets with the sequence
  numbers 100, 101 and 105, received in this order by a new handler, leave exactly one
  recorded gap, \<open>(102, 104)\<close>.
\<close>

theorem cme_gap_detection:
  "(12 \<le> length p \<longrightarrow>
      expected_seq (snd (parse_packet p h)) = packet_seq p + 1 \<and>
      gaps (snd (parse_packet p h)) =
        (if 0 < expected_seq h \<and> expected_seq h < packet_seq p
         then gaps h @ [(expected_seq h, packet_seq p - 1)] else gaps h)) \<and>
   (12 \<le> length p1 \<and> 12 \<le> length p2 \<and> 12 \<le> length p3 \<and>
    packet_seq p1 = 100 \<and> packet_seq p2 = 101 \<and> packet_seq p3 = 105 \<longrightarrow>
      gaps (snd (parse_packets [p1, p2, p3] (CMEHandler_init has_on_error))) = [(102, 104)] \<and>
      length (gaps (snd (parse_packets [p1, p2, p3] (CMEHandler_init has_on_error)))) = 1 \<and>
      expected_seq (snd (parse_packets [p1, p2, p3] (CMEHandler_init has_on_error))) = 106)"
proof (intro conjI impI)
  assume l: "12 \<le> length p"
  show "expected_seq (snd (parse_packet p h)) = packet_seq p + 1"
    unfolding parse_packet_state [OF l] by simp
  show "gaps (snd (parse_packet p h)) =
        (if 0 < expected_seq h \<and> expected_seq h < packet_seq p
         then gaps h @ [(expected_seq h, packet_seq p - 1)] else gaps h)"
    unfolding parse_packet_state [OF l] by simp
next
  assume a: "12 \<le> length p1 \<and> 12 \<le> length p2 \<and> 12 \<le> length p3 \<and>
    packet_seq p1 = 100 \<and> packet_seq p2 = 101 \<and> packet_seq p3 = 105"
  then have l: "12 \<le> length p1" "12 \<le> length p2" "12 \<le> length p3"
    and s: "packet_seq p1 = 100" "packet_seq p2 = 101" "packet_seq p3 = 105"
    by simp_all
  let ?h = "snd (parse_packets [p1, p2, p3] (CMEHandler_init has_on_error))"
  let ?init = "CMEHandler_init has_on_error"
  have e0: "expected_seq ?init = 0" "gaps ?init = []" by (simp_all add: CMEHandler_init_def)
  have 1: "snd (parse_packet p1 ?init) = ?init\<lparr>gaps := [], expected_seq := 101\<rparr>"
    unfolding parse_packet_state [OF l(1)] s e0 by simp
  have 2: "snd (parse_packet p2 (?init\<lparr>gaps := [], expected_seq := 101\<rparr>)) =
           ?init\<lparr>gaps := [], expected_seq := 102\<rparr>"
    unfolding parse_packet_state [OF l(2)] s by simp
  have 3: "snd (parse_packet p3 (?init\<lparr>gaps := [], expected_seq := 102\<rparr>)) =
           ?init\<lparr>gaps := [(102, 104)], expected_seq := 106\<rparr>"
    unfolding parse_packet_state [OF l(3)] s by simp
  have "?h = snd (parse_packet p3 (snd (parse_packet p2 (snd (parse_packet p1 ?init)))))"
    unfolding parse_packets_state by simp
  also have "\<dots> = ?init\<lparr>gaps := [(102, 104)], expected_seq := 106\<rparr>"
    by (simp only: 1 2 3)
  finally have st: "?h = ?init\<lparr>gaps := [(102, 104)], expected_seq := 106\<rparr>" .
  show "gaps ?h = [(102, 104)]" unfolding st by simp
  show "length (gaps ?h) = 1" unfolding st by simp
  show "expected_seq ?h = 106" unfolding st by simp
qed

theorem cme_gap_detection_witness:
  "12 \<le> length (example_packet 100) \<and> 12 \<le> length (example_packet 101) \<and>
   12 \<le> length (example_packet 105) \<and>
   packet_seq (example_packet 100) = 100 \<and> packet_seq (example_packet 101) = 101 \<and>
   packet_seq (example_packet 105) = 105 \<and>
   gaps (snd (parse_packets [example_packet 100, example_packet 101, example_packet 105]
                (CMEHandler_init True))) = [(102, 104)] \<and>
   expected_seq (snd (parse_packet (example_packet 100) (CMEHandler_init True))) = 101"
proof -
  have f: "12 \<le> length (example_packet 100) \<and> 12 \<le> length (example_packet 101) \<and>
      12 \<le> length (example_packet 105) \<and>
      packet_seq (example_packet 100) = 100 \<and> packet_seq (example_packet 101) = 101 \<and>
      packet_seq (example_packet 105) = 105"
    by (simp add: example_packet_facts)
  from cme_gap_detection [of "example_packet 100" "CMEHandler_init True" "example_packet 100"
      "example_packet 101" "example_packet 105" True] f
  have "gaps (snd (parse_packets [example_packet 100, example_packet 101, example_packet 105]
                (CMEHandler_init True))) = [(102, 104)]"
    "expected_seq (snd (parse_packet (example_packet 100) (CMEHandler_init True))) =
       packet_seq (example_packet 100) + 1"
    by blast+
  with f show ?thesis by (simp add: example_packet_facts)
qed

lemma example_packet_ticks:
  "fst (parse_packet (example_packet 100) (CMEHandler_init True)) =
     [(cme_tick 1700000000000000000 ''SEC_7'')\<lparr>bid_price := Some 45322500000,
                                               bid_size := Some 150\<rparr>]"
  by code_simp

lemma parse_incremental_refresh_no_sequence:
  "t \<in> set (parse_incremental_refresh smap data ts) \<Longrightarrow> sequence_num t = None"
  by (auto simp: parse_incremental_refresh_def Let_def cme_tick_def split: if_splits)

lemma feed_stats_gaps_without_sequence:
  "sequence_num t = None \<Longrightarrow> gaps_detected (FeedStats_update ewma t rt fs) = gaps_detected fs"
  by (simp add: FeedStats_update_def Let_def)


section \<open>Vendor parsers and the tick invariant\<close>

lemma to_fixed_Inr: "to_fixed scaled m v = Inr x \<Longrightarrow> x \<noteq> None"
  by (cases "scaled v m") (auto simp: to_fixed_def)

lemma dbn_parse_message_priceless:
  assumes "msg_type msg \<noteq> Some ''heartbeat''"
    and "bid_px msg = None" "ask_px msg = None" "trade_px msg = None"
  shows "\<exists>t. dbn_parse_message scaled msg rt = Inr (Some t) \<and> tick_type t = QUOTE \<and>
           bid_price t = None \<and> ask_price t = None \<and> trade_price t = None"
  using assms by (simp add: dbn_parse_message_def)

lemma bbg_parse_event_priceless:
  assumes "ev_type ev = Some ''SUBSCRIPTION_DATA''"
    and "ev_BID ev = None" "ev_ASK ev = None" "ev_LAST_PRICE ev = None"
  shows "\<exists>t. bbg_parse_event scaled nonzero ev now = Inr (Some t) \<and> tick_type t = QUOTE \<and>
           bid_price t = None \<and> ask_price t = None \<and> trade_price t = None"
  using assms by (simp add: bbg_parse_event_def bbg_price_def)

lemma dbn_parse_message_prices:
  assumes "dbn_parse_message scaled msg rt = Inr (Some t)"
  shows "bid_price t \<noteq> None \<longleftrightarrow> bid_px msg \<noteq> None"
    "ask_price t \<noteq> None \<longleftrightarrow> ask_px msg \<noteq> None"
    "trade_price t \<noteq> None \<longleftrightarrow> trade_px msg \<noteq> None"
    "tick_type t = (if trade_px msg \<noteq> None then TRADE
                    else if bid_px msg \<noteq> None \<and> ask_px msg \<noteq> None then BBO else QUOTE)"
  using assms
  by (auto simp: dbn_parse_message_def Let_def split: if_splits sum.splits option.splits
      dest: to_fixed_Inr)

lemma bbg_price_Inr:
  "bbg_price scaled nonzero m x = Inr y \<Longrightarrow>
   (y \<noteq> None \<longleftrightarrow> (\<exists>v. x = Some v \<and> nonzero v))"
  by (auto simp: bbg_price_def split: option.splits if_splits dest: to_fixed_Inr)

lemma bbg_parse_event_prices:
  assumes "bbg_parse_event scaled nonzero ev now = Inr (Some t)"
  shows "bid_price t \<noteq> None \<longleftrightarrow> (\<exists>v. ev_BID ev = Some v \<and> nonzero v)"
    "ask_price t \<noteq> None \<longleftrightarrow> (\<exists>v. ev_ASK ev = Some v \<and> nonzero v)"
    "trade_price t \<noteq> None \<longleftrightarrow> (\<exists>v. ev_LAST_PRICE ev = Some v \<and> nonzero v)"
    "tick_type t = (if ev_LAST_PRICE ev \<noteq> None then TRADE
                    else if ev_BID ev \<noteq> None \<and> ev_ASK ev \<noteq> None then BBO else QUOTE)"
proof -
  from assms obtain b a l where
    p: "bbg_price scaled nonzero (10 ^ 4) (ev_BID ev) = Inr b"
       "bbg_price scaled nonzero (10 ^ 4) (ev_ASK ev) = Inr a"
       "bbg_price scaled nonzero (10 ^ 4) (ev_LAST_PRICE ev) = Inr l"
    and t: "bid_price t = b" "ask_price t = a" "trade_price t = l"
      "tick_type t = (if ev_LAST_PRICE ev \<noteq> None then TRADE
                    else if ev_BID ev \<noteq> None \<and> ev_ASK ev \<noteq> None then BBO else QUOTE)"
    by (auto simp: bbg_parse_event_def Let_def split: if_splits sum.splits)
  from bbg_price_Inr [OF p(1)] t(1)
  show "bid_price t \<noteq> None \<longleftrightarrow> (\<exists>v. ev_BID ev = Some v \<and> nonzero v)" by simp
  from bbg_price_Inr [OF p(2)] t(2)
  show "ask_price t \<noteq> None \<longleftrightarrow> (\<exists>v. ev_ASK ev = Some v \<and> nonzero v)" by simp
  from bbg_price_Inr [OF p(3)] t(3)
  show "trade_price t \<noteq> None \<longleftrightarrow> (\<exists>v. ev_LAST_PRICE ev = Some v \<and> nonzero v)" by simp
  from t(4) show "tick_type t = (if ev_LAST_PRICE ev \<noteq> None then TRADE
                    else if ev_BID ev \<noteq> None \<and> ev_ASK ev \<noteq> None then BBO else QUOTE)" .
qed

text \<open>
  Claim C2 fails as stated: a Databento message that is not a heartbeat and carries no
  price key is parsed into a tick without any price.
\<close>

theorem priceless_message_gives_priceless_tick:
  "msg_type symbol_only_message \<noteq> Some ''heartbeat'' \<and>
   dbn_parse_message scaled_int symbol_only_message 5 =
     Inr (Some \<lparr>timestamp_ns = 1700000000000000000, symbol = ''ESZ4'', tick_type = QUOTE,
                bid_price = None, ask_price = None, trade_price = None, bid_size = None,
                ask_size = None, trade_size = None, exchange = None,
                vendor = Some DATABENTO, sequence_num = Some 1, price_precision = 2\<rparr>) \<and>
   \<not> tick_invariant
       \<lparr>timestamp_ns = 1700000000000000000, symbol = ''ESZ4'', tick_type = QUOTE,
        bid_price = None, ask_price = None, trade_price = None, bid_size = None,
        ask_size = None, trade_size = None, exchange = None,
        vendor = Some DATABENTO, sequence_num = Some 1, price_precision = 2\<rparr>"
  by (simp add: dbn_parse_message_def symbol_only_message_def tick_invariant_def)

text \<open>
  Claim C2, as amended. A tick that \<open>DatabentoHandler._parse_message\<close> produces has both
  bid and ask when its type is BBO, and satisfies the tick invariant when the message
  carries at least one of the keys \<open>bid_px\<close>, \<open>ask_px\<close>, \<open>trade_px\<close>. A tick that
  \<open>BloombergHandler._parse_event\<close> produces from an event whose BID, ASK and LAST\_PRICE
  are each missing or not zero has both bid and ask when its type is BBO, and satisfies
  the tick invariant when at least one of the three is present. A Databento message
  that is not a heartbeat and has none of the three price keys, and a Bloomberg
  \<open>SUBSCRIPTION_DATA\<close> event with none of the three price fields, still yield a tick: of
  type QUOTE and without any price.
\<close>

theorem parsed_tick_invariant:
  "(dbn_parse_message scaled msg rt = Inr (Some t) \<longrightarrow>
      (tick_type t = BBO \<longrightarrow> bid_price t \<noteq> None \<and> ask_price t \<noteq> None) \<and>
      (bid_px msg \<noteq> None \<or> ask_px msg \<noteq> None \<or> trade_px msg \<noteq> None \<longrightarrow> tick_invariant t)) \<and>
   (bbg_parse_event scaled nonzero ev now = Inr (Some t') \<and>
    (\<forall>v. ev_BID ev = Some v \<or> ev_ASK ev = Some v \<or> ev_LAST_PRICE ev = Some v \<longrightarrow> nonzero v) \<longrightarrow>
      (tick_type t' = BBO \<longrightarrow> bid_price t' \<noteq> None \<and> ask_price t' \<noteq> None) \<and>
      (ev_BID ev \<noteq> None \<or> ev_ASK ev \<noteq> None \<or> ev_LAST_PRICE ev \<noteq> None \<longrightarrow> tick_invariant t')) \<and>
   (msg_type msg \<noteq> Some ''heartbeat'' \<and>
    bid_px msg = None \<and> ask_px msg = None \<and> trade_px msg = None \<longrightarrow>
      (\<exists>q. dbn_parse_message scaled msg rt = Inr (Some q) \<and> tick_type q = QUOTE \<and>
            bid_price q = None \<and> ask_price q = None \<and> trade_price q = None \<and>
            \<not> tick_invariant q)) \<and>
   (ev_type ev = Some ''SUBSCRIPTION_DATA'' \<and>
    ev_BID ev = None \<and> ev_ASK ev = None \<and> ev_LAST_PRICE ev = None \<longrightarrow>
      (\<exists>q. bbg_parse_event scaled nonzero ev now = Inr (Some q) \<and> tick_type q = QUOTE \<and>
            bid_price q = None \<and> ask_price q = None \<and> trade_price q = None \<and>
            \<not> tick_invariant q))"
proof (intro conjI impI)
  assume a: "dbn_parse_message scaled msg rt = Inr (Some t)"
  note p = dbn_parse_message_prices [OF a]
  show "bid_price t \<noteq> None" if "tick_type t = BBO"
    using that p by (auto split: if_splits)
  show "ask_price t \<noteq> None" if "tick_type t = BBO"
    using that p by (auto split: if_splits)
  show "tick_invariant t" if "bid_px msg \<noteq> None \<or> ask_px msg \<noteq> None \<or> trade_px msg \<noteq> None"
    unfolding tick_invariant_def using that p by (auto split: if_splits)
next
  assume a: "bbg_parse_event scaled nonzero ev now = Inr (Some t') \<and>
    (\<forall>v. ev_BID ev = Some v \<or> ev_ASK ev = Some v \<or> ev_LAST_PRICE ev = Some v \<longrightarrow> nonzero v)"
  then have e: "bbg_parse_event scaled nonzero ev now = Inr (Some t')"
    and nz: "\<And>v. ev_BID ev = Some v \<or> ev_ASK ev = Some v \<or> ev_LAST_PRICE ev = Some v \<Longrightarrow> nonzero v"
    by blast+
  note p = bbg_parse_event_prices [OF e]
  have b: "bid_price t' \<noteq> None \<longleftrightarrow> ev_BID ev \<noteq> None" using p(1) nz by auto
  have k: "ask_price t' \<noteq> None \<longleftrightarrow> ev_ASK ev \<noteq> None" using p(2) nz by auto
  have l: "trade_price t' \<noteq> None \<longleftrightarrow> ev_LAST_PRICE ev \<noteq> None" using p(3) nz by auto
  show "bid_price t' \<noteq> None" if "tick_type t' = BBO"
    using that p(4) b by (auto split: if_splits)
  show "ask_price t' \<noteq> None" if "tick_type t' = BBO"
    using that p(4) k by (auto split: if_splits)
  show "tick_invariant t'"
    if "ev_BID ev \<noteq> None \<or> ev_ASK ev \<noteq> None \<or> ev_LAST_PRICE ev \<noteq> None"
    unfolding tick_invariant_def using that p(4) b k l by (auto split: if_splits)
next
  assume "msg_type msg \<noteq> Some ''heartbeat'' \<and>
    bid_px msg = None \<and> ask_px msg = None \<and> trade_px msg = None"
  then have "\<exists>q. dbn_parse_message scaled msg rt = Inr (Some q) \<and> tick_type q = QUOTE \<and>
           bid_price q = None \<and> ask_price q = None \<and> trade_price q = None"
    by (intro dbn_parse_message_priceless) simp_all
  then show "\<exists>q. dbn_parse_message scaled msg rt = Inr (Some q) \<and> tick_type q = QUOTE \<and>
            bid_price q = None \<and> ask_price q = None \<and> trade_price q = None \<and>
            \<not> tick_invariant q"
    by (auto simp: tick_invariant_def)
next
  assume "ev_type ev = Some ''SUBSCRIPTION_DATA'' \<and>
    ev_BID ev = None \<and> ev_ASK ev = None \<and> ev_LAST_PRICE ev = None"
  then have "\<exists>q. bbg_parse_event scaled nonzero ev now = Inr (Some q) \<and> tick_type q = QUOTE \<and>
           bid_price q = None \<and> ask_price q = None \<and> trade_price q = None"
    by (intro bbg_parse_event_priceless) simp_all
  then show "\<exists>q. bbg_parse_event scaled nonzero ev now = Inr (Some q) \<and> tick_type q = QUOTE \<and>
            bid_price q = None \<and> ask_price q = None \<and> trade_price q = None \<and>
            \<not> tick_invariant q"
    by (auto simp: tick_invariant_def)
qed


theorem parsed_tick_invariant_witness:
  "dbn_parse_message scaled_int bbo_message 5 =
     Inr (Some \<lparr>timestamp_ns = 1700000000000000000, symbol = ''ESZ4'', tick_type = BBO,
                bid_price = Some 453200, ask_price = Some 453300, trade_price = None,
                bid_size = None, ask_size = None, trade_size = None, exchange = None,
                vendor = Some DATABENTO, sequence_num = Some 1, price_precision = 2\<rparr>) \<and>
   tick_invariant
     \<lparr>timestamp_ns = 1700000000000000000, symbol = ''ESZ4'', tick_type = BBO,
      bid_price = Some 453200, ask_price = Some 453300, trade_price = None,
      bid_size = None, ask_size = None, trade_size = None, exchange = None,
      vendor = Some DATABENTO, sequence_num = Some 1, price_precision = 2\<rparr> \<and>
   bbg_parse_event scaled_int (\<lambda>v. v \<noteq> 0) bbo_event 5 =
     Inr (Some \<lparr>timestamp_ns = 5, symbol = ''ESZ4 Index'', tick_type = BBO,
                bid_price = Some 45320000, ask_price = Some 45330000, trade_price = None,
                bid_size = Some 150, ask_size = Some 200, trade_size = None, exchange = None,
                vendor = Some BLOOMBERG, sequence_num = None, price_precision = 4\<rparr>) \<and>
   tick_invariant
     \<lparr>timestamp_ns = 5, symbol = ''ESZ4 Index'', tick_type = BBO,
      bid_price = Some 45320000, ask_price = Some 45330000, trade_price = None,
      bid_size = Some 150, ask_size = Some 200, trade_size = None, exchange = None,
      vendor = Some BLOOMBERG, sequence_num = None, price_precision = 4\<rparr> \<and>
   msg_type symbol_only_message \<noteq> Some ''heartbeat'' \<and>
   (\<exists>q. dbn_parse_message scaled_int symbol_only_message 5 = Inr (Some q) \<and>
        tick_type q = QUOTE \<and> \<not> tick_invariant q) \<and>
   ev_type priceless_event = Some ''SUBSCRIPTION_DATA'' \<and>
   (\<exists>q. bbg_parse_event scaled_int (\<lambda>v. v \<noteq> 0) priceless_event 5 = Inr (Some q) \<and>
        tick_type q = QUOTE \<and> \<not> tick_invariant q)"
proof -
  let ?t1 = "\<lparr>timestamp_ns = 1700000000000000000, symbol = ''ESZ4'', tick_type = BBO,
      bid_price = Some 453200, ask_price = Some 453300, trade_price = None,
      bid_size = None, ask_size = None, trade_size = None, exchange = None,
      vendor = Some DATABENTO, sequence_num = Some 1, price_precision = 2\<rparr>"
  let ?t2 = "\<lparr>timestamp_ns = 5, symbol = ''ESZ4 Index'', tick_type = BBO,
      bid_price = Some 45320000, ask_price = Some 45330000, trade_price = None,
      bid_size = Some 150, ask_size = Some 200, trade_size = None, exchange = None,
      vendor = Some BLOOMBERG, sequence_num = None, price_precision = 4\<rparr>"
  have d: "dbn_parse_message scaled_int bbo_message 5 = Inr (Some ?t1)"
    by (simp add: dbn_parse_message_def bbo_message_def symbol_only_message_def scaled_int_def
        to_fixed_def)
  have b: "bbg_parse_event scaled_int (\<lambda>v. v \<noteq> 0) bbo_event 5 = Inr (Some ?t2)"
    by (simp add: bbg_parse_event_def bbg_price_def bbo_event_def scaled_int_def to_fixed_def)
  have px: "bid_px bbo_message \<noteq> None \<or> ask_px bbo_message \<noteq> None \<or> trade_px bbo_message \<noteq> None"
    by (simp add: bbo_message_def)
  have nz: "\<forall>v. ev_BID bbo_event = Some v \<or> ev_ASK bbo_event = Some v \<or>
                ev_LAST_PRICE bbo_event = Some v \<longrightarrow> v \<noteq> 0"
    by (auto simp: bbo_event_def)
  have ev: "ev_BID bbo_event \<noteq> None \<or> ev_ASK bbo_event \<noteq> None \<or> ev_LAST_PRICE bbo_event \<noteq> None"
    by (simp add: bbo_event_def)
  note th = parsed_tick_invariant [of scaled_int bbo_message 5 ?t1 "\<lambda>v. v \<noteq> 0" bbo_event 5 ?t2]
  from th d px have i1: "tick_invariant ?t1" by blast
  from th b nz ev have i2: "tick_invariant ?t2" by blast
  have m: "msg_type symbol_only_message \<noteq> Some ''heartbeat''"
    "bid_px symbol_only_message = None \<and> ask_px symbol_only_message = None \<and>
     trade_px symbol_only_message = None"
    by (simp_all add: symbol_only_message_def)
  have e: "ev_type priceless_event = Some ''SUBSCRIPTION_DATA''"
    "ev_BID priceless_event = None \<and> ev_ASK priceless_event = None \<and>
     ev_LAST_PRICE priceless_event = None"
    by (simp_all add: priceless_event_def bbo_event_def)
  note th2 = parsed_tick_invariant [of scaled_int symbol_only_message 5 ?t1 "\<lambda>v. v \<noteq> 0"
      priceless_event 5 ?t2]
  from th2 m have i3: "\<exists>q. dbn_parse_message scaled_int symbol_only_message 5 = Inr (Some q) \<and>
        tick_type q = QUOTE \<and> \<not> tick_invariant q" by blast
  from th2 e have i4: "\<exists>q. bbg_parse_event scaled_int (\<lambda>v. v \<noteq> 0) priceless_event 5 = Inr (Some q) \<and>
        tick_type q = QUOTE \<and> \<not> tick_invariant q" by blast
  from d i1 b i2 m(1) i3 e(1) i4 show ?thesis by (intro conjI)
qed


section \<open>Subscribing and unsubscribing\<close>

lemma foldl_map_upd:
  "foldl (\<lambda>m s. m(s \<mapsto> f s)) st xs = (\<lambda>s. if s \<in> set xs then Some (f s) else st s)"
proof (induction xs arbitrary: st)
  case Nil
  show ?case by simp
next
  case (Cons x xs)
  show ?case unfolding foldl_Cons Cons.IH by (rule ext) simp
qed

lemma reset_stats_eq:
  "reset_stats v xs st = (\<lambda>s. if s \<in> set xs then Some (FeedStats_init v s) else st s)"
  unfolding reset_stats_def by (rule foldl_map_upd)

lemma reset_stats_twice: "reset_stats v xs (reset_stats v xs st) = reset_stats v xs st"
  unfolding reset_stats_eq by (rule ext) simp

lemma remove_each_absent: "set xs \<inter> set subs = {} \<Longrightarrow> remove_each xs subs = subs"
  unfolding remove_each_def by (induction xs) auto

lemma cme_subscribe_fold:
  "foldl (\<lambda>g s. g\<lparr>fh_stats := (fh_stats g)(s \<mapsto> FeedStats_init (fh_vendor g) s),
                   books := (books g)(s \<mapsto> empty_book)\<rparr>) g xs =
   g\<lparr>fh_stats := reset_stats (fh_vendor g) xs (fh_stats g),
     books := foldl (\<lambda>m s. m(s \<mapsto> empty_book)) (books g) xs\<rparr>"
proof (induction xs arbitrary: g)
  case Nil
  show ?case by (simp add: reset_stats_def)
next
  case (Cons x xs)
  show ?case unfolding foldl_Cons Cons.IH by (simp add: reset_stats_def)
qed

lemma cme_subscribe_eq:
  "cme_subscribe xs h =
   h\<lparr>subscriptions := subscriptions h @ xs,
     fh_stats := reset_stats (fh_vendor h) xs (fh_stats h),
     books := (\<lambda>s. if s \<in> set xs then Some empty_book else books h s)\<rparr>"
  unfolding cme_subscribe_def cme_subscribe_fold foldl_map_upd by (simp cong: if_cong)

lemma cme_unsubscribe_absent:
  "set xs \<inter> set (subscriptions h) = {} \<Longrightarrow> set xs \<inter> dom (books h) = {} \<Longrightarrow>
   cme_unsubscribe xs h = h"
  unfolding cme_unsubscribe_def by (induction xs) (auto simp: Let_def)


lemma cme_unsubscribe_step_inv:
  assumes "books_subscribed g"
  shows "books_subscribed
     (let g1 = (if s \<in> set (subscriptions g)
                then g\<lparr>subscriptions := remove1 s (subscriptions g)\<rparr> else g)
      in if s \<in> dom (books g1) then g1\<lparr>books := (books g1)(s := None)\<rparr> else g1)"
proof -
  let ?g1 = "if s \<in> set (subscriptions g)
             then g\<lparr>subscriptions := remove1 s (subscriptions g)\<rparr> else g"
  let ?g2 = "if s \<in> dom (books ?g1) then ?g1\<lparr>books := (books ?g1)(s := None)\<rparr> else ?g1"
  have b1: "books ?g1 = books g" by simp
  have s2: "subscriptions ?g2 = subscriptions ?g1" by simp
  have "x \<in> set (subscriptions ?g2)" if x: "x \<in> dom (books ?g2)" for x
  proof -
    from x have xs: "x \<noteq> s" by (auto split: if_splits)
    from x have "x \<in> dom (books g)" by (auto split: if_splits)
    with assms have "x \<in> set (subscriptions g)" unfolding books_subscribed_def by blast
    with xs have "x \<in> set (subscriptions ?g1)" by (simp add: in_set_remove1)
    then show ?thesis unfolding s2 .
  qed
  then have "books_subscribed ?g2" unfolding books_subscribed_def by blast
  then show ?thesis unfolding Let_def .
qed

lemma cme_unsubscribe_inv: "books_subscribed h \<Longrightarrow> books_subscribed (cme_unsubscribe xs h)"
proof (induction xs arbitrary: h)
  case Nil
  then show ?case by (simp add: cme_unsubscribe_def)
next
  case (Cons x xs)
  from cme_unsubscribe_step_inv [OF Cons.prems, of x] Cons.IH
  show ?case unfolding cme_unsubscribe_def foldl_Cons by blast
qed

lemma cme_subscribe_inv: "books_subscribed h \<Longrightarrow> books_subscribed (cme_subscribe xs h)"
  unfolding cme_subscribe_eq books_subscribed_def by (auto split: if_splits)

lemma parse_packet_keeps_subscriptions:
  "subscriptions (snd (parse_packet data h)) = subscriptions h"
  "books (snd (parse_packet data h)) = books h"
  by (simp_all add: parse_packet_def Let_def)

lemma cme_reachable_inv: "cme_reachable h \<Longrightarrow> books_subscribed h"
proof (induction rule: cme_reachable.induct)
  case (cme_new has_on_error)
  show ?case by (simp add: books_subscribed_def CMEHandler_init_def)
next
  case (cme_after_subscribe h symbols)
  then show ?case by (simp add: cme_subscribe_inv)
next
  case (cme_after_unsubscribe h symbols)
  then show ?case by (simp add: cme_unsubscribe_inv)
next
  case (cme_after_packet h data)
  then show ?case by (simp add: books_subscribed_def parse_packet_keeps_subscriptions)
next
  case (cme_after_tick h ewma receive_time tick)
  then show ?case by (simp add: books_subscribed_def cme_deliver_def split: option.splits)
next
  case (cme_set_running h b)
  then show ?case by (simp add: books_subscribed_def)
next
  case (cme_set_connected h b)
  then show ?case by (simp add: books_subscribed_def)
next
  case (cme_reset_delay h)
  then show ?case by (simp add: books_subscribed_def)
next
  case (cme_backoff h)
  then show ?case by (simp add: books_subscribed_def)
qed

lemma subscribe_twice_duplicates:
  "subscriptions (fst (dbn_subscribe xs (fst (dbn_subscribe xs h)))) = subscriptions h @ xs @ xs"
  "subscriptions (cme_subscribe xs (cme_subscribe xs g)) = subscriptions g @ xs @ xs"
  by (simp_all add: dbn_subscribe_def cme_subscribe_eq)

text \<open>
  Claim C7. For the Databento, Bloomberg and CME handlers: after \<open>subscribe(S)\<close> twice
  the set of subscribed symbols, the statistics and (for CME) the books are what they
  are after \<open>subscribe(S)\<close> once. Unsubscribing symbols none of which is in the
  subscription set leaves the handler as it was (for CME, in every state a handler
  reaches from its constructor, connected and started or not: there every symbol with a
  book is subscribed).
\<close>

theorem subscribe_twice_unsubscribe_absent:
  "set (subscriptions (fst (dbn_subscribe xs (fst (dbn_subscribe xs d))))) =
     set (subscriptions (fst (dbn_subscribe xs d))) \<and>
   fh_stats (fst (dbn_subscribe xs (fst (dbn_subscribe xs d)))) =
     fh_stats (fst (dbn_subscribe xs d)) \<and>
   (set us \<inter> set (subscriptions d) = {} \<longrightarrow> fst (dbn_unsubscribe us d) = d) \<and>
   set (subscriptions (fst (snd (bbg_subscribe xs (fst (snd (bbg_subscribe xs b))))))) =
     set (subscriptions (fst (snd (bbg_subscribe xs b)))) \<and>
   fh_stats (fst (snd (bbg_subscribe xs (fst (snd (bbg_subscribe xs b)))))) =
     fh_stats (fst (snd (bbg_subscribe xs b))) \<and>
   (set us \<inter> set (subscriptions b) = {} \<longrightarrow> fst (bbg_unsubscribe us b) = b) \<and>
   set (subscriptions (cme_subscribe xs (cme_subscribe xs c))) =
     set (subscriptions (cme_subscribe xs c)) \<and>
   fh_stats (cme_subscribe xs (cme_subscribe xs c)) = fh_stats (cme_subscribe xs c) \<and>
   books (cme_subscribe xs (cme_subscribe xs c)) = books (cme_subscribe xs c) \<and>
   (cme_reachable c \<and> set us \<inter> set (subscriptions c) = {} \<longrightarrow> cme_unsubscribe us c = c)"
proof (intro conjI impI)
  show "set (subscriptions (fst (dbn_subscribe xs (fst (dbn_subscribe xs d))))) =
     set (subscriptions (fst (dbn_subscribe xs d)))"
    by (auto simp: dbn_subscribe_def)
  show "fh_stats (fst (dbn_subscribe xs (fst (dbn_subscribe xs d)))) =
     fh_stats (fst (dbn_subscribe xs d))"
    by (simp add: dbn_subscribe_def reset_stats_twice)
  show "fst (dbn_unsubscribe us d) = d" if "set us \<inter> set (subscriptions d) = {}"
    using that by (simp add: dbn_unsubscribe_def remove_each_absent)
  show "set (subscriptions (fst (snd (bbg_subscribe xs (fst (snd (bbg_subscribe xs b))))))) =
     set (subscriptions (fst (snd (bbg_subscribe xs b))))"
    by (auto simp: bbg_subscribe_def Let_def)
  show "fh_stats (fst (snd (bbg_subscribe xs (fst (snd (bbg_subscribe xs b)))))) =
     fh_stats (fst (snd (bbg_subscribe xs b)))"
    by (simp add: bbg_subscribe_def Let_def reset_stats_twice)
  show "fst (bbg_unsubscribe us b) = b" if "set us \<inter> set (subscriptions b) = {}"
    using that by (simp add: bbg_unsubscribe_def remove_each_absent)
  show "set (subscriptions (cme_subscribe xs (cme_subscribe xs c))) =
     set (subscriptions (cme_subscribe xs c))"
    by (auto simp: cme_subscribe_eq)
  show "fh_stats (cme_subscribe xs (cme_subscribe xs c)) = fh_stats (cme_subscribe xs c)"
    by (simp add: cme_subscribe_eq reset_stats_twice)
  show "books (cme_subscribe xs (cme_subscribe xs c)) = books (cme_subscribe xs c)"
    unfolding cme_subscribe_eq by (simp cong: if_cong)
next
  assume a: "cme_reachable c \<and> set us \<inter> set (subscriptions c) = {}"
  then have "books_subscribed c" by (simp add: cme_reachable_inv)
  with a have "set us \<inter> dom (books c) = {}" unfolding books_subscribed_def by blast
  with a show "cme_unsubscribe us c = c" by (simp add: cme_unsubscribe_absent)
qed

theorem subscribe_twice_unsubscribe_absent_witness:
  "set [''NQ''] \<inter> set (subscriptions (fst (dbn_subscribe [''ES''] (DatabentoHandler_init True)))) = {} \<and>
   fst (dbn_unsubscribe [''NQ''] (fst (dbn_subscribe [''ES''] (DatabentoHandler_init True)))) =
     fst (dbn_subscribe [''ES''] (DatabentoHandler_init True)) \<and>
   set [''NQ''] \<inter> set (subscriptions (BloombergHandler_init True)) = {} \<and>
   fst (bbg_unsubscribe [''NQ''] (BloombergHandler_init True)) = BloombergHandler_init True \<and>
   cme_reachable ((cme_subscribe [''ES''] (CMEHandler_init True))\<lparr>connected := True, running := True\<rparr>) \<and>
   set [''NQ''] \<inter>
     set (subscriptions ((cme_subscribe [''ES''] (CMEHandler_init True))
                           \<lparr>connected := True, running := True\<rparr>)) = {} \<and>
   cme_unsubscribe [''NQ'']
       ((cme_subscribe [''ES''] (CMEHandler_init True))\<lparr>connected := True, running := True\<rparr>) =
     (cme_subscribe [''ES''] (CMEHandler_init True))\<lparr>connected := True, running := True\<rparr> \<and>
   set (subscriptions (cme_subscribe [''ES''] (cme_subscribe [''ES''] (CMEHandler_init True)))) =
     {''ES''}"
proof -
  let ?d = "fst (dbn_subscribe [''ES''] (DatabentoHandler_init True))"
  let ?b = "BloombergHandler_init True"
  let ?sub = "cme_subscribe [''ES''] (CMEHandler_init True)"
  let ?c = "?sub\<lparr>connected := True, running := True\<rparr>"
  have hd: "set [''NQ''] \<inter> set (subscriptions ?d) = {}"
    by (simp add: dbn_subscribe_def DatabentoHandler_init_def)
  have hb: "set [''NQ''] \<inter> set (subscriptions ?b) = {}"
    by (simp add: BloombergHandler_init_def)
  have rc: "cme_reachable ?c"
    by (rule cme_set_running [OF cme_set_connected [OF cme_after_subscribe [OF cme_new]]])
  have sc: "subscriptions ?sub = [''ES'']" by (simp add: cme_subscribe_eq CMEHandler_init_def)
  then have hc: "set [''NQ''] \<inter> set (subscriptions ?c) = {}" by simp
  note th1 = subscribe_twice_unsubscribe_absent [of "[''ES'']" ?d "[''NQ'']" ?b ?c]
  from th1 hd have 1: "fst (dbn_unsubscribe [''NQ''] ?d) = ?d" by blast
  from th1 hb have 2: "fst (bbg_unsubscribe [''NQ''] ?b) = ?b" by blast
  from th1 have "cme_reachable ?c \<and> set [''NQ''] \<inter> set (subscriptions ?c) = {} \<longrightarrow>
      cme_unsubscribe [''NQ''] ?c = ?c"
    by (elim conjE)
  with rc hc have 3: "cme_unsubscribe [''NQ''] ?c = ?c" by (elim impE) (intro conjI)
  note th2 = subscribe_twice_unsubscribe_absent [of "[''ES'']" ?d "[''NQ'']" ?b
      "CMEHandler_init True"]
  from th2 have "set (subscriptions (cme_subscribe [''ES''] ?sub)) = set (subscriptions ?sub)"
    by blast
  then have 4: "set (subscriptions (cme_subscribe [''ES''] ?sub)) = {''ES''}" unfolding sc by simp
  from hd 1 hb 2 rc hc 3 4 show ?thesis by (intro conjI)
qed


end
